theory Spec2Isabelle
  imports Main
begin

section \<open>The data model of the container (container.go)\<close>

text \<open>
  \<^verbatim>\<open>type Lifetime int; const (Transient Lifetime = iota; Scoped; Singleton)\<close>
\<close>

type_synonym lifetime = int

definition Transient :: lifetime where
  "Transient = 0"

definition Scoped :: lifetime where
  "Scoped = 1"

definition Singleton :: lifetime where
  "Singleton = 2"

text \<open>
  \<^verbatim>\<open>Lifetime\<close> is an integer type: a caller may pass a value that is none of the three
  constants, and the \<^verbatim>\<open>switch\<close> statements of \<^verbatim>\<open>createInstance\<close>, which have no
  \<^verbatim>\<open>default\<close>, then do nothing.
\<close>

lemma lifetime_distinct [simp]:
  "Transient \<noteq> Scoped" "Transient \<noteq> Singleton" "Scoped \<noteq> Transient"
  "Scoped \<noteq> Singleton" "Singleton \<noteq> Transient" "Singleton \<noteq> Scoped"
  by (simp_all add: Transient_def Scoped_def Singleton_def)

text \<open>
  \<^verbatim>\<open>var ErrNoMatchingTag error = fmt.Errorf("no matching tag found")\<close> is the only
  error the package itself makes; every other error value comes from a constructor or a
  destructor supplied by the caller.
\<close>

datatype error = ErrNoMatchingTag | UserError string

subsection \<open>The fragment of package reflect the container reads\<close>

text \<open>
  The code asks three things of a type: its \<^verbatim>\<open>Kind()\<close> (only \<^verbatim>\<open>Ptr\<close> and
  \<^verbatim>\<open>Struct\<close> are told apart from the rest), its \<^verbatim>\<open>String()\<close>, and, of a struct,
  its fields with their \<^verbatim>\<open>di:"..."\<close> tag. A field records its name, the value of
  its \<^verbatim>\<open>di\<close> tag (the empty string when there is none, as \<^verbatim>\<open>Tag.Get\<close> returns),
  whether it is exported, the name of its own type, whether that type has size zero, and
  the names of the dynamic types that \<^verbatim>\<open>reflect.Value.Set\<close> accepts for it (its own
  type; for an interface field, the types implementing it).

  \<^verbatim>\<open>reflect.New\<close> behaves differently for a type of size zero (see \<open>reflect_New\<close>),
  so a type also tells whether its size is zero: a type of another kind says so itself
  (an array of length zero), a pointer never has, a struct has when all its fields have.
\<close>

record field =
  fname :: string
  ditag :: string
  exported :: bool
  ftype :: string
  fzero :: bool
  accepts :: "string list"

datatype rtype = TBasic string bool | TPtr rtype | TStruct string "field list"

datatype kind = Struct | Ptr | OtherKind

fun Kind :: "rtype \<Rightarrow> kind" where
  "Kind (TBasic nm z) = OtherKind"
| "Kind (TPtr t) = Ptr"
| "Kind (TStruct nm fs) = Struct"

fun type_string :: "rtype \<Rightarrow> string" where
  "type_string (TBasic nm z) = nm"
| "type_string (TPtr t) = CHR ''*'' # type_string t"
| "type_string (TStruct nm fs) = nm"

text \<open>Whether \<^verbatim>\<open>t.Size()\<close> is zero.\<close>

fun zero_size :: "rtype \<Rightarrow> bool" where
  "zero_size (TBasic nm z) = z"
| "zero_size (TPtr t) = False"
| "zero_size (TStruct nm fs) = list_all fzero fs"

text \<open>
  An address is that of an object on the heap, or the one address the Go runtime gives
  to every allocation of size zero (\<^verbatim>\<open>&runtime.zerobase\<close>).
\<close>

datatype addr = Zerobase | Obj nat

text \<open>
  Values held in an \<^verbatim>\<open>interface{}\<close> or in a field: the nil interface, integers and
  strings, the zero value of a type given by its name (and whether its size is zero) when
  it is neither \<^verbatim>\<open>int\<close> nor \<^verbatim>\<open>string\<close> (a nil slice, or the nil a field of
  pointer or interface type starts with), a struct value, and a pointer, which carries its
  element type and is either nil or an address.
\<close>

datatype val =
    NilV
  | IntV int
  | StrV string
  | ZeroV string bool
  | StructV string "field list" "val list"
  | PtrV rtype "addr option"

fun zero_basic :: "string \<Rightarrow> bool \<Rightarrow> val" where
  "zero_basic nm z =
     (if nm = ''int'' then IntV 0 else if nm = ''string'' then StrV [] else ZeroV nm z)"

text \<open>The zero value of a type.\<close>

fun zero_val :: "rtype \<Rightarrow> val" where
  "zero_val (TBasic nm z) = zero_basic nm z"
| "zero_val (TPtr t) = PtrV t None"
| "zero_val (TStruct nm fs) = StructV nm fs (map (\<lambda>f. zero_basic (ftype f) (fzero f)) fs)"

text \<open>\<^verbatim>\<open>reflect.TypeOf(v)\<close>; it is nil for the nil interface.\<close>

fun TypeOf :: "val \<Rightarrow> rtype option" where
  "TypeOf NilV = None"
| "TypeOf (IntV i) = Some (TBasic ''int'' False)"
| "TypeOf (StrV s) = Some (TBasic ''string'' False)"
| "TypeOf (ZeroV nm z) = Some (TBasic nm z)"
| "TypeOf (StructV nm fs vs) = Some (TStruct nm fs)"
| "TypeOf (PtrV t a) = Some (TPtr t)"

subsection \<open>Constructors, destructors, factories\<close>

text \<open>
  \<^verbatim>\<open>type Constructor func(c Container) (interface{}, error)\<close>. A constructor is handed
  the resolving container and may use it to wire up its instance. A constructor written
  by the caller is modelled by the calls it makes on that container and what it does with
  the answers: it returns a pair, panics, allocates a zero object (\<^verbatim>\<open>new(T)\<close>), or calls
  \<^verbatim>\<open>Resolve\<close>, \<^verbatim>\<open>ResolveAll\<close> or \<^verbatim>\<open>Inject\<close> on the container and goes on with the
  answer. Constructors that register on the container or close it are outside this model.
\<close>

datatype request = ReqResolve string | ReqResolveAll string | ReqInject val

datatype response =
    RespResolve val "error option"
  | RespResolveAll "val list" "error option"
  | RespInject "error option"

datatype prog =
    Return val "error option"
  | PanicP string
  | NewObj rtype "val \<Rightarrow> prog"
  | Call request "response \<Rightarrow> prog"

text \<open>
  The three ways a \<^verbatim>\<open>Constructor\<close> field is filled: the closure of \<^verbatim>\<open>UseType\<close>
  (which captures \<^verbatim>\<open>typ := reflect.TypeOf(v)\<close>), the closure of \<^verbatim>\<open>UseValue\<close> (which
  captures \<open>v\<close>), and the function given to \<^verbatim>\<open>UseFactory\<close>, which may be nil.
\<close>

datatype ctor = TypeCtor "rtype option" | ValueCtor val | FuncCtor "prog option"

text \<open>
  \<^verbatim>\<open>type Destructor func(i interface{}) error\<close>: what it returns for an instance.
\<close>

type_synonym dtor = "val \<Rightarrow> error option"

text \<open>
  \<^verbatim>\<open>type factory struct { Tag; Lifetime; Constructor; Destructor }\<close>. The cache is a
  \<^verbatim>\<open>map[*factory]interface{}\<close>, keyed by the address of the record: \<open>fid\<close> is that
  address, given at registration and never reused.
\<close>

record factory =
  fid :: nat
  Tag :: string
  Lifetime :: lifetime
  Constructor :: ctor
  Destructor :: "dtor option"

text \<open>\<^verbatim>\<open>type alias struct { Tag; Aliased }\<close>\<close>

record alias_rec =
  aTag :: string
  Aliased :: string

text \<open>
  An entry of \<^verbatim>\<open>destructors []func() error\<close> is the closure
  \<^verbatim>\<open>func() error { return f.Destructor(instance) }\<close>: it captures \<open>f\<close> and
  \<open>instance\<close>.
\<close>

record closure =
  cl_factory :: factory
  cl_instance :: val

text \<open>
  \<^verbatim>\<open>type container struct { parent; aliases; factories; cache; destructors; lock }\<close>.
  Containers are shared and mutated through pointers, so they live in a store and
  \<open>parent\<close> is an address in it. The lock is not modelled: one call runs at a time.
\<close>

record container =
  parent :: "nat option"
  aliases :: "alias_rec list"
  factories :: "factory list"
  cache :: "nat \<rightharpoonup> val"
  destructors :: "closure list"

text \<open>
  What the functions given by the caller do to the outside is kept as the sequence of
  their calls: which constructor ran for which container, which destructor ran on which
  instance. No operation reads it.
\<close>

datatype event = CtorCalled nat nat | DtorCalled nat val

text \<open>
  The whole state: the containers by address (in order of creation), the objects of
  non-zero size made by \<^verbatim>\<open>reflect.New\<close> by address, the next factory address, and
  the calls so far.
\<close>

record world =
  conts :: "container list"
  heap :: "val list"
  nfact :: nat
  calls :: "event list"

definition upd_cont :: "nat \<Rightarrow> (container \<Rightarrow> container) \<Rightarrow> world \<Rightarrow> world" where
  "upd_cont c g w = w\<lparr>conts := (conts w)[c := g (conts w ! c)]\<rparr>"

text \<open>
  A call returns normally with its results and the new state, panics, or does not return
  within the nesting depth it was given (see \<open>handler\<close> below).
\<close>

datatype 'a outcome = Done 'a world | Panic string | Diverge

fun bind :: "'a outcome \<Rightarrow> ('a \<Rightarrow> world \<Rightarrow> 'b outcome) \<Rightarrow> 'b outcome" where
  "bind (Done x w) k = k x w"
| "bind (Panic m) k = Panic m"
| "bind Diverge k = Diverge"

section \<open>Allocation\<close>

text \<open>
  \<^verbatim>\<open>reflect.New(t)\<close> returns a pointer to a new zero value of \<open>t\<close>. The runtime
  (\<^verbatim>\<open>mallocgc\<close>) gives an allocation of size zero the address \<^verbatim>\<open>&zerobase\<close>, the
  same each time, and any other allocation an address of its own.
\<close>

definition reflect_New :: "rtype \<Rightarrow> world \<Rightarrow> val \<times> world" where
  "reflect_New t w =
     (if zero_size t then (PtrV t (Some Zerobase), w)
      else (PtrV t (Some (Obj (length (heap w)))), w\<lparr>heap := heap w @ [zero_val t]\<rparr>))"

text \<open>
  \<^verbatim>\<open>reflect.Indirect(v).Interface()\<close>: the value a pointer points to (an object of size
  zero has one value only), and the value itself when it is not a pointer. The code
  applies it to results of \<^verbatim>\<open>reflect.New\<close> only, which are never nil.
\<close>

fun Indirect :: "world \<Rightarrow> val \<Rightarrow> val" where
  "Indirect w (PtrV t (Some Zerobase)) = zero_val t"
| "Indirect w (PtrV t (Some (Obj a))) = heap w ! a"
| "Indirect w v = v"

section \<open>Registration\<close>

text \<open>\<^verbatim>\<open>newContainer(parent)\<close> and \<^verbatim>\<open>NewScope()\<close>; the result is the new address.\<close>

definition newContainer :: "nat option \<Rightarrow> world \<Rightarrow> nat \<times> world" where
  "newContainer p w =
     (length (conts w),
      w\<lparr>conts := conts w @
           [\<lparr>parent = p, aliases = [], factories = [], cache = Map.empty, destructors = []\<rparr>]\<rparr>)"

definition NewScope :: "nat \<Rightarrow> world \<Rightarrow> nat \<times> world" where
  "NewScope this w = newContainer (Some this) w"

definition add_factory ::
  "nat \<Rightarrow> string \<Rightarrow> lifetime \<Rightarrow> ctor \<Rightarrow> dtor option \<Rightarrow> world \<Rightarrow> world" where
  "add_factory this tag lt ct dt w =
     (upd_cont this
        (\<lambda>k. k\<lparr>factories := factories k @
                 [\<lparr>fid = nfact w, Tag = tag, Lifetime = lt, Constructor = ct, Destructor = dt\<rparr>]\<rparr>)
        w)\<lparr>nfact := Suc (nfact w)\<rparr>"

definition UseType :: "nat \<Rightarrow> string \<Rightarrow> val \<Rightarrow> lifetime \<Rightarrow> world \<Rightarrow> world" where
  "UseType this tag v lt w = add_factory this tag lt (TypeCtor (TypeOf v)) None w"

definition UseValue :: "nat \<Rightarrow> string \<Rightarrow> val \<Rightarrow> world \<Rightarrow> world" where
  "UseValue this tag v w = add_factory this tag Transient (ValueCtor v) None w"

definition UseFactory ::
  "nat \<Rightarrow> string \<Rightarrow> prog option \<Rightarrow> dtor option \<Rightarrow> lifetime \<Rightarrow> world \<Rightarrow> world" where
  "UseFactory this tag ct dt lt w = add_factory this tag lt (FuncCtor ct) dt w"

definition Use :: "nat \<Rightarrow> string \<Rightarrow> string \<Rightarrow> world \<Rightarrow> world" where
  "Use this tag tagOrTypeName w =
     upd_cont this
       (\<lambda>k. k\<lparr>aliases := aliases k @ [\<lparr>aTag = tag, Aliased = tagOrTypeName\<rparr>]\<rparr>) w"

text \<open>
  The \<^verbatim>\<open>Register*\<close> family takes the tag from \<^verbatim>\<open>reflect.TypeOf(v).String()\<close>, which
  panics on the nil interface.
\<close>

definition RegisterType :: "nat \<Rightarrow> val \<Rightarrow> lifetime \<Rightarrow> world \<Rightarrow> unit outcome" where
  "RegisterType this v lt w =
     (case TypeOf v of
        None \<Rightarrow> Panic ''nil pointer dereference''
      | Some t \<Rightarrow> Done () (UseType this (type_string t) v lt w))"

definition RegisterValue :: "nat \<Rightarrow> val \<Rightarrow> world \<Rightarrow> unit outcome" where
  "RegisterValue this v w =
     (case TypeOf v of
        None \<Rightarrow> Panic ''nil pointer dereference''
      | Some t \<Rightarrow> Done () (UseValue this (type_string t) v w))"

definition RegisterFactory ::
  "nat \<Rightarrow> val \<Rightarrow> prog option \<Rightarrow> dtor option \<Rightarrow> lifetime \<Rightarrow> world \<Rightarrow> unit outcome" where
  "RegisterFactory this v ct dt lt w =
     (case TypeOf v of
        None \<Rightarrow> Panic ''nil pointer dereference''
      | Some t \<Rightarrow> Done () (UseFactory this (type_string t) ct dt lt w))"

section \<open>Walking the parent chain\<close>

text \<open>
  \<^verbatim>\<open>for c := this; c != nil; c = c.parent\<close>. A container is made by
  \<^verbatim>\<open>newContainer(parent)\<close> from a parent that exists already and its \<open>parent\<close> field
  is never assigned again, so a parent's address is below its child's; the walk follows
  a link only downwards, which is what makes it a total function.
\<close>

fun scope_chain :: "world \<Rightarrow> nat \<Rightarrow> nat list" where
  "scope_chain w c =
     (case parent (conts w ! c) of
        None \<Rightarrow> [c]
      | Some p \<Rightarrow> if p < c then c # scope_chain w p else [c])"

text \<open>
  \<^verbatim>\<open>root := func(c *container) *container { for ; c.parent != nil; c = c.parent {}; return c }(this)\<close>
\<close>

fun root :: "world \<Rightarrow> nat \<Rightarrow> nat" where
  "root w c =
     (case parent (conts w ! c) of
        None \<Rightarrow> c
      | Some p \<Rightarrow> if p < c then root w p else c)"

section \<open>Alias resolution\<close>

text \<open>\<^verbatim>\<open>func (this tags) Contains(tag string) bool\<close>\<close>

fun Contains :: "string list \<Rightarrow> string \<Rightarrow> bool" where
  "Contains [] tag = False"
| "Contains (x # xs) tag = (if x = tag then True else Contains xs tag)"

text \<open>
  The body of the innermost loop of \<^verbatim>\<open>resolveAliases\<close>, for one alias: skip it unless
  \<^verbatim>\<open>tags[i] == alias.Tag\<close>; skip it when \<^verbatim>\<open>alias.Aliased\<close> is among the tags
  already (the loop over \<open>j\<close> that sets \<^verbatim>\<open>found\<close>); otherwise append it.
\<close>

definition add_alias :: "nat \<Rightarrow> string list \<Rightarrow> alias_rec \<Rightarrow> string list" where
  "add_alias i tags a =
     (if tags ! i \<noteq> aTag a then tags
      else if Aliased a \<in> set tags then tags
      else tags @ [Aliased a])"

text \<open>
  \<^verbatim>\<open>for c := this; c != nil; c = c.parent { for _, alias := range c.aliases { ... } }\<close>
\<close>

definition scan_aliases :: "world \<Rightarrow> nat \<Rightarrow> nat \<Rightarrow> string list \<Rightarrow> string list" where
  "scan_aliases w this i tags =
     foldl (\<lambda>tags c. foldl (add_alias i) tags (aliases (conts w ! c))) tags (scope_chain w this)"

text \<open>The aliases a walk from \<open>this\<close> reads, in the order it reads them.\<close>

definition all_aliases :: "world \<Rightarrow> nat \<Rightarrow> alias_rec list" where
  "all_aliases w this = concat (map (\<lambda>c. aliases (conts w ! c)) (scope_chain w this))"

lemma add_alias_extends:
  assumes "i < length tags"
  shows "\<exists>ys. add_alias i tags a = tags @ ys \<and> set ys \<subseteq> {Aliased a} - set tags"
  using assms by (auto simp: add_alias_def)

lemma foldl_add_alias_extends:
  assumes "i < length tags"
  shows "\<exists>ys. foldl (add_alias i) tags as = tags @ ys
           \<and> set ys \<subseteq> Aliased ` set as - set tags"
  using assms
proof (induction as arbitrary: tags)
  case Nil
  then show ?case by simp
next
  case (Cons a as)
  from add_alias_extends [OF Cons.prems, of a] obtain ys
    where ys: "add_alias i tags a = tags @ ys" "set ys \<subseteq> {Aliased a} - set tags"
    by blast
  have "i < length (tags @ ys)" using Cons.prems by simp
  from Cons.IH [OF this] obtain zs
    where zs: "foldl (add_alias i) (tags @ ys) as = (tags @ ys) @ zs"
      "set zs \<subseteq> Aliased ` set as - set (tags @ ys)"
    by blast
  have "foldl (add_alias i) tags (a # as) = tags @ (ys @ zs)"
    using ys zs by simp
  moreover have "set (ys @ zs) \<subseteq> Aliased ` set (a # as) - set tags"
    using ys zs by auto
  ultimately show ?case by blast
qed

lemma scan_aliases_concat:
  "scan_aliases w this i tags = foldl (add_alias i) tags (all_aliases w this)"
proof -
  have "foldl (\<lambda>tags c. foldl f tags (g c)) tags cs = foldl f tags (concat (map g cs))"
    for f :: "string list \<Rightarrow> alias_rec \<Rightarrow> string list" and g :: "nat \<Rightarrow> alias_rec list" and cs
    by (induction cs arbitrary: tags) simp_all
  then show ?thesis by (simp add: scan_aliases_def all_aliases_def)
qed

lemma scan_aliases_extends:
  assumes "i < length tags"
  shows "\<exists>ys. scan_aliases w this i tags = tags @ ys
           \<and> set ys \<subseteq> Aliased ` set (all_aliases w this) - set tags"
  using foldl_add_alias_extends [OF assms] by (simp add: scan_aliases_concat)

text \<open>
  \<^verbatim>\<open>for i := 0; i < len(tags); i++ { ... }\<close>, where the body may append to
  \<open>tags\<close>. The loop ends because a pass either appends a tag that was not there, and
  there are only the aliased tags of the chain to append, or leaves \<open>tags\<close> as it is
  and moves \<open>i\<close> closer to its length.
\<close>

function resolveAliases_loop :: "world \<Rightarrow> nat \<Rightarrow> nat \<Rightarrow> string list \<Rightarrow> string list" where
  "resolveAliases_loop w this i tags =
     (if i < length tags then resolveAliases_loop w this (Suc i) (scan_aliases w this i tags)
      else tags)"
  by pat_completeness auto
termination
proof (relation "inv_image (less_than <*lex*> less_than)
    (\<lambda>(w, this, i, tags).
       (card (Aliased ` set (all_aliases w this) - set tags), length tags - i))")
  show "wf (inv_image (less_than <*lex*> less_than)
    (\<lambda>(w, this, i, tags).
       (card (Aliased ` set (all_aliases w this) - set tags), length tags - i)))"
    by (intro wf_inv_image wf_lex_prod wf_less_than)
next
  fix w :: world and this i :: nat and tags :: "string list"
  assume lt: "i < length tags"
  let ?U = "Aliased ` set (all_aliases w this)"
  from scan_aliases_extends [OF lt, of w this] obtain ys
    where ys: "scan_aliases w this i tags = tags @ ys" "set ys \<subseteq> ?U - set tags"
    by blast
  show "((w, this, Suc i, scan_aliases w this i tags), (w, this, i, tags))
      \<in> inv_image (less_than <*lex*> less_than)
          (\<lambda>(w, this, i, tags).
             (card (Aliased ` set (all_aliases w this) - set tags), length tags - i))"
  proof (cases ys)
    case Nil
    then show ?thesis using ys lt by simp
  next
    case (Cons y ys')
    then have y: "y \<in> ?U" "y \<notin> set tags" "y \<in> set (tags @ ys)" using ys by auto
    have "?U - set (tags @ ys) \<subset> ?U - set tags" using y by auto
    then have "card (?U - set (tags @ ys)) < card (?U - set tags)"
      by (intro psubset_card_mono) auto
    then show ?thesis using ys by simp
  qed
qed

text \<open>\<^verbatim>\<open>func (this *container) resolveAliases(tag string) tags\<close>\<close>

definition resolveAliases :: "world \<Rightarrow> nat \<Rightarrow> string \<Rightarrow> string list" where
  "resolveAliases w this tag = resolveAliases_loop w this 0 [tag]"

text \<open>The Alias edges the walk from \<open>this\<close> reads.\<close>

definition alias_edges :: "world \<Rightarrow> nat \<Rightarrow> (string \<times> string) set" where
  "alias_edges w this = (\<lambda>a. (aTag a, Aliased a)) ` set (all_aliases w this)"

section \<open>Resolution\<close>

text \<open>
  A constructor calls back into the container it is given. \<open>h\<close> below stands for that
  container as the constructor sees it: \<open>h c rq w\<close> is the outcome of the call \<open>rq\<close>
  on container \<open>c\<close> in state \<open>w\<close>. The operations are written over an arbitrary
  \<open>h\<close>; \<open>handler\<close> at the end of the section ties the knot.
\<close>

type_synonym callback = "nat \<Rightarrow> request \<Rightarrow> world \<Rightarrow> response outcome"

text \<open>Running a constructor written by the caller, for the container \<open>c\<close>.\<close>

primrec exec :: "callback \<Rightarrow> prog \<Rightarrow> nat \<Rightarrow> world \<Rightarrow> (val \<times> error option) outcome" where
  "exec h (Return v e) c w = Done (v, e) w"
| "exec h (PanicP m) c w = Panic m"
| "exec h (NewObj t k) c w = exec h (k (fst (reflect_New t w))) c (snd (reflect_New t w))"
| "exec h (Call rq k) c w = bind (h c rq w) (\<lambda>r w'. exec h (k r) c w')"

text \<open>
  The constructor that \<^verbatim>\<open>UseType\<close> makes:
  \<^verbatim>\<open>
  if typ.Kind() == reflect.Ptr { instanceType = typ.Elem() } else { instanceType = typ }
  ptrInstance := reflect.New(instanceType)
  if instanceType.Kind() == reflect.Struct { c.Inject(ptrInstance.Interface()) }
  if typ.Kind() == reflect.Ptr { return ptrInstance.Interface(), nil }
  else { return reflect.Indirect(ptrInstance).Interface(), nil }
  \<close>
  What \<^verbatim>\<open>c.Inject\<close> returns is dropped. \<open>typ\<close> is nil when \<^verbatim>\<open>UseType\<close> was given
  the nil interface, and \<^verbatim>\<open>typ.Kind()\<close> panics then.
\<close>

fun Elem :: "rtype \<Rightarrow> rtype" where
  "Elem (TPtr t) = t"
| "Elem t = t"

definition type_ctor ::
  "callback \<Rightarrow> rtype option \<Rightarrow> nat \<Rightarrow> world \<Rightarrow> (val \<times> error option) outcome" where
  "type_ctor h typ c w =
     (case typ of
        None \<Rightarrow> Panic ''nil pointer dereference''
      | Some typ \<Rightarrow>
          let instanceType = (if Kind typ = Ptr then Elem typ else typ);
              ptrInstance = fst (reflect_New instanceType w);
              w1 = snd (reflect_New instanceType w)
          in bind (if Kind instanceType = Struct then h c (ReqInject ptrInstance) w1
                   else Done (RespInject None) w1)
               (\<lambda>_ w2. if Kind typ = Ptr then Done (ptrInstance, None) w2
                        else Done (Indirect w2 ptrInstance, None) w2))"

text \<open>\<^verbatim>\<open>f.Constructor(this)\<close>, whichever way the field was filled.\<close>

definition call_ctor ::
  "callback \<Rightarrow> factory \<Rightarrow> nat \<Rightarrow> world \<Rightarrow> (val \<times> error option) outcome" where
  "call_ctor h f this w =
     (let w0 = w\<lparr>calls := calls w @ [CtorCalled (fid f) this]\<rparr>
      in case Constructor f of
           TypeCtor typ \<Rightarrow> type_ctor h typ this w0
         | ValueCtor v \<Rightarrow> Done (v, None) w0
         | FuncCtor None \<Rightarrow> Panic ''nil pointer dereference''
         | FuncCtor (Some p) \<Rightarrow> exec h p this w0)"

text \<open>
  The three \<^verbatim>\<open>switch f.Lifetime\<close> of \<^verbatim>\<open>createInstance\<close>. None has a
  \<^verbatim>\<open>default\<close>; in the third \<^verbatim>\<open>case Transient\<close> falls through to
  \<^verbatim>\<open>case Scoped\<close>.
\<close>

definition cached :: "nat \<Rightarrow> nat \<Rightarrow> factory \<Rightarrow> world \<Rightarrow> val option" where
  "cached this rt f w =
     (if Lifetime f = Scoped then cache (conts w ! this) (fid f)
      else if Lifetime f = Singleton then cache (conts w ! rt) (fid f)
      else None)"

definition store_cache :: "nat \<Rightarrow> nat \<Rightarrow> factory \<Rightarrow> val \<Rightarrow> world \<Rightarrow> world" where
  "store_cache this rt f instance w =
     (if Lifetime f = Scoped
      then upd_cont this (\<lambda>k. k\<lparr>cache := (cache k)(fid f \<mapsto> instance)\<rparr>) w
      else if Lifetime f = Singleton
      then upd_cont rt (\<lambda>k. k\<lparr>cache := (cache k)(fid f \<mapsto> instance)\<rparr>) w
      else w)"

definition record_dtor :: "nat \<Rightarrow> nat \<Rightarrow> factory \<Rightarrow> val \<Rightarrow> world \<Rightarrow> world" where
  "record_dtor this rt f instance w =
     (if Destructor f \<noteq> None then
        (if Lifetime f = Transient \<or> Lifetime f = Scoped
         then upd_cont this
                (\<lambda>k. k\<lparr>destructors := destructors k @ [\<lparr>cl_factory = f, cl_instance = instance\<rparr>]\<rparr>) w
         else if Lifetime f = Singleton
         then upd_cont rt
                (\<lambda>k. k\<lparr>destructors := destructors k @ [\<lparr>cl_factory = f, cl_instance = instance\<rparr>]\<rparr>) w
         else w)
      else w)"

text \<open>
  \<^verbatim>\<open>func (this *container) createInstance(f *factory) (interface{}, error)\<close>. The root
  is found first; the cache is read; on a miss the constructor runs; on an error of the
  constructor \<^verbatim>\<open>return instance, err\<close>; otherwise the cache is written and the
  destructor recorded.
\<close>

definition createInstance ::
  "callback \<Rightarrow> nat \<Rightarrow> factory \<Rightarrow> world \<Rightarrow> (val \<times> error option) outcome" where
  "createInstance h this f w =
     (let rt = root w this in
      case cached this rt f w of
        Some v \<Rightarrow> Done (v, None) w
      | None \<Rightarrow>
          bind (call_ctor h f this w)
            (\<lambda>(instance, err) w1.
               case err of
                 Some e \<Rightarrow> Done (instance, Some e) w1
               | None \<Rightarrow>
                   Done (instance, None)
                     (record_dtor this rt f instance (store_cache this rt f instance w1))))"

text \<open>
  The search of \<^verbatim>\<open>Resolve\<close>:
  \<^verbatim>\<open>for i := len(c.factories) - 1; 0 <= i; i-- { if tags.Contains(c.factories[i].Tag) { return c.factories[i], true } }\<close>
  with \<open>Suc i\<close> for the index \<open>i\<close> of the source, inside
  \<^verbatim>\<open>for c := this; c != nil; c = c.parent\<close>.
\<close>

fun find_factory :: "string list \<Rightarrow> factory list \<Rightarrow> nat \<Rightarrow> factory option" where
  "find_factory tags fs 0 = None"
| "find_factory tags fs (Suc i) =
     (if Contains tags (Tag (fs ! i)) then Some (fs ! i) else find_factory tags fs i)"

fun search :: "world \<Rightarrow> string list \<Rightarrow> nat list \<Rightarrow> factory option" where
  "search w tags [] = None"
| "search w tags (c # cs) =
     (case find_factory tags (factories (conts w ! c)) (length (factories (conts w ! c))) of
        Some f \<Rightarrow> Some f
      | None \<Rightarrow> search w tags cs)"

definition lookup :: "world \<Rightarrow> nat \<Rightarrow> string \<Rightarrow> factory option" where
  "lookup w this tag = search w (resolveAliases w this tag) (scope_chain w this)"

text \<open>\<^verbatim>\<open>func (this *container) Resolve(tag string) (interface{}, error)\<close>\<close>

definition Resolve ::
  "callback \<Rightarrow> nat \<Rightarrow> string \<Rightarrow> world \<Rightarrow> (val \<times> error option) outcome" where
  "Resolve h this tag w =
     (case lookup w this tag of
        Some f \<Rightarrow> createInstance h this f w
      | None \<Rightarrow> Done (NilV, Some ErrNoMatchingTag) w)"

text \<open>
  The collection of \<^verbatim>\<open>ResolveAll\<close>: the same two loops, appending every match to
  \<open>factories\<close>.
\<close>

fun collect :: "string list \<Rightarrow> factory list \<Rightarrow> nat \<Rightarrow> factory list \<Rightarrow> factory list" where
  "collect tags fs 0 acc = acc"
| "collect tags fs (Suc i) acc =
     collect tags fs i (if Contains tags (Tag (fs ! i)) then acc @ [fs ! i] else acc)"

fun collect_chain :: "world \<Rightarrow> string list \<Rightarrow> nat list \<Rightarrow> factory list \<Rightarrow> factory list" where
  "collect_chain w tags [] acc = acc"
| "collect_chain w tags (c # cs) acc =
     collect_chain w tags cs
       (collect tags (factories (conts w ! c)) (length (factories (conts w ! c))) acc)"

text \<open>
  \<^verbatim>\<open>for i := len(factories) - 1; 0 <= i; i-- { v, err := this.createInstance(factories[i]); if err != nil { return nil, err }; instances = append(instances, v) }\<close>
\<close>

fun create_loop ::
  "callback \<Rightarrow> nat \<Rightarrow> factory list \<Rightarrow> nat \<Rightarrow> val list \<Rightarrow> world
     \<Rightarrow> (val list \<times> error option) outcome" where
  "create_loop h this fs 0 instances w = Done (instances, None) w"
| "create_loop h this fs (Suc i) instances w =
     bind (createInstance h this (fs ! i) w)
       (\<lambda>(v, err) w1.
          case err of
            Some e \<Rightarrow> Done ([], Some e) w1
          | None \<Rightarrow> create_loop h this fs i (instances @ [v]) w1)"

text \<open>\<^verbatim>\<open>func (this *container) ResolveAll(tag string) ([]interface{}, error)\<close>\<close>

definition ResolveAll ::
  "callback \<Rightarrow> nat \<Rightarrow> string \<Rightarrow> world \<Rightarrow> (val list \<times> error option) outcome" where
  "ResolveAll h this tag w =
     (let fs = collect_chain w (resolveAliases w this tag) (scope_chain w this) []
      in create_loop h this fs (length fs) [] w)"

section \<open>Field injection\<close>

text \<open>
  \<^verbatim>\<open>val.Field(i).Set(reflect.ValueOf(fi))\<close>. \<open>target\<close> is the address of the struct
  when \<^verbatim>\<open>Inject\<close> was given a pointer, and nothing when it was given a struct value,
  whose fields cannot be set. \<^verbatim>\<open>Set\<close> panics on a field that is not exported, on a
  value that is not addressable, on the nil interface, and on a value whose type the
  field does not accept. A struct of size zero has fields of size zero only, and
  setting one changes nothing.
\<close>

fun set_field :: "nat \<Rightarrow> val \<Rightarrow> val \<Rightarrow> val" where
  "set_field i v (StructV nm fs vs) = StructV nm fs (vs[i := v])"
| "set_field i v obj = obj"

fun store_field :: "addr \<Rightarrow> nat \<Rightarrow> val \<Rightarrow> world \<Rightarrow> world" where
  "store_field Zerobase i fi w = w"
| "store_field (Obj a) i fi w = w\<lparr>heap := (heap w)[a := set_field i fi (heap w ! a)]\<rparr>"

definition Set_field :: "addr option \<Rightarrow> field \<Rightarrow> nat \<Rightarrow> val \<Rightarrow> world \<Rightarrow> unit outcome" where
  "Set_field target fld i fi w =
     (if \<not> exported fld then Panic ''reflect.Value.Set using value obtained using unexported field''
      else case target of
        None \<Rightarrow> Panic ''reflect.Value.Set using unaddressable value''
      | Some a \<Rightarrow>
          (case TypeOf fi of
             None \<Rightarrow> Panic ''reflect: call of reflect.Value.Set on zero Value''
           | Some t \<Rightarrow>
               if type_string t \<in> set (accepts fld)
               then Done () (store_field a i fi w)
               else Panic ''reflect.Set: value is not assignable to type''))"

text \<open>
  \<^verbatim>\<open>for i := 0; i < t.NumField(); i++ { f := t.Field(i); if tag := f.Tag.Get("di"); tag != "" { fi, err := this.Resolve(tag); if err != nil { return err }; val.Field(i).Set(reflect.ValueOf(fi)) } }\<close>
  over the fields that are left, \<open>i\<close> being the index of the first of them.
\<close>

fun inject_fields ::
  "callback \<Rightarrow> nat \<Rightarrow> addr option \<Rightarrow> field list \<Rightarrow> nat \<Rightarrow> world \<Rightarrow> error option outcome" where
  "inject_fields h this target [] i w = Done None w"
| "inject_fields h this target (f # fs) i w =
     (if ditag f \<noteq> [] then
        bind (Resolve h this (ditag f) w)
          (\<lambda>(fi, err) w1.
             case err of
               Some e \<Rightarrow> Done (Some e) w1
             | None \<Rightarrow>
                 bind (Set_field target f i fi w1)
                   (\<lambda>_ w2. inject_fields h this target fs (Suc i) w2))
      else inject_fields h this target fs (Suc i) w)"

text \<open>
  \<^verbatim>\<open>func (this *container) Inject(v interface{}) error\<close>. \<^verbatim>\<open>val.Type()\<close> panics on
  the nil interface and, after \<^verbatim>\<open>reflect.Indirect\<close>, on a nil pointer; any other value
  that is not a struct, or a pointer to one, meets the \<^verbatim>\<open>panic\<close> of the source.
\<close>

fun Inject :: "callback \<Rightarrow> nat \<Rightarrow> val \<Rightarrow> world \<Rightarrow> error option outcome" where
  "Inject h this NilV w = Panic ''reflect: call of reflect.Value.Type on zero Value''"
| "Inject h this (PtrV t None) w = Panic ''reflect: call of reflect.Value.Type on zero Value''"
| "Inject h this (PtrV (TStruct nm fs) (Some a)) w = inject_fields h this (Some a) fs 0 w"
| "Inject h this (StructV nm fs vs) w = inject_fields h this None fs 0 w"
| "Inject h this v w = Panic ''struct or pointer to struct required''"

section \<open>Teardown\<close>

text \<open>
  \<^verbatim>\<open>for i := len(dtors) - 1; 0 <= i; i-- { err := dtors[i](); if err != nil { return err } }\<close>
  with \<open>Suc i\<close> for the index \<open>i\<close> of the source. Calling the closure calls
  \<^verbatim>\<open>f.Destructor(instance)\<close>.
\<close>

fun close_loop :: "closure list \<Rightarrow> nat \<Rightarrow> world \<Rightarrow> error option outcome" where
  "close_loop dtors 0 w = Done None w"
| "close_loop dtors (Suc i) w =
     (case Destructor (cl_factory (dtors ! i)) of
        None \<Rightarrow> Panic ''nil pointer dereference''
      | Some d \<Rightarrow>
          let w1 = w\<lparr>calls := calls w @
                     [DtorCalled (fid (cl_factory (dtors ! i))) (cl_instance (dtors ! i))]\<rparr>
          in case d (cl_instance (dtors ! i)) of
               Some e \<Rightarrow> Done (Some e) w1
             | None \<Rightarrow> close_loop dtors i w1)"

text \<open>
  \<^verbatim>\<open>func (this *container) Close() error\<close>: copy \<^verbatim>\<open>this.destructors\<close>, empty it
  (\<^verbatim>\<open>this.destructors[:0]\<close>), then run the copy from its end.
\<close>

definition Close :: "nat \<Rightarrow> world \<Rightarrow> error option outcome" where
  "Close this w =
     (let dtors = destructors (conts w ! this);
          w1 = upd_cont this (\<lambda>k. k\<lparr>destructors := []\<rparr>) w
      in close_loop dtors (length dtors) w1)"

section \<open>The container as a constructor sees it\<close>

text \<open>
  A call made by a constructor is a call of the operations above, whose constructors call
  again: \<open>handler n\<close> answers calls nested at most \<open>n\<close> deep and is \<open>Diverge\<close> past
  that, so a registration that resolves itself for ever (the code has no guard against
  it) has \<open>Diverge\<close> at every depth. \<open>Resolve (handler n)\<close>, \<open>ResolveAll (handler n)\<close>
  and \<open>Inject (handler n)\<close> are the operations of the interface.
\<close>

fun handler :: "nat \<Rightarrow> callback" where
  "handler 0 c rq w = Diverge"
| "handler (Suc n) c (ReqResolve tag) w =
     bind (Resolve (handler n) c tag w) (\<lambda>(v, err) w'. Done (RespResolve v err) w')"
| "handler (Suc n) c (ReqResolveAll tag) w =
     bind (ResolveAll (handler n) c tag w) (\<lambda>(vs, err) w'. Done (RespResolveAll vs err) w')"
| "handler (Suc n) c (ReqInject v) w =
     bind (Inject (handler n) c v w) (\<lambda>err w'. Done (RespInject err) w')"

section \<open>Notions used to state the properties\<close>

text \<open>
  The state in which the package starts: \<^verbatim>\<open>var Registry Container = newContainer(nil)\<close>.
\<close>

definition Registry :: world where
  "Registry = snd (newContainer None \<lparr>conts = [], heap = [], nfact = 0, calls = []\<rparr>)"

text \<open>
  The records that match a tag, as the specification orders the result of
  \<^verbatim>\<open>ResolveAll\<close>: the root's first and the calling container's last, each container's
  in the order of registration. A record matches when its tag is in the alias set.
\<close>

definition matching :: "world \<Rightarrow> nat \<Rightarrow> string \<Rightarrow> factory list" where
  "matching w this tag =
     concat (map (\<lambda>c. filter (\<lambda>f. Tag f \<in> set (resolveAliases w this tag)) (factories (conts w ! c)))
                 (rev (scope_chain w this)))"

text \<open>
  Creating the instances of a list of records from its first to its last, stopping at
  the first error.
\<close>

fun create_each ::
  "callback \<Rightarrow> nat \<Rightarrow> factory list \<Rightarrow> world \<Rightarrow> (val list \<times> error option) outcome" where
  "create_each h this [] w = Done ([], None) w"
| "create_each h this (f # fs) w =
     bind (createInstance h this f w)
       (\<lambda>(v, err) w1.
          case err of
            Some e \<Rightarrow> Done ([], Some e) w1
          | None \<Rightarrow>
              bind (create_each h this fs w1)
                (\<lambda>(vs, err) w2.
                   case err of
                     Some e \<Rightarrow> Done ([], Some e) w2
                   | None \<Rightarrow> Done (v # vs, None) w2))"

text \<open>
  What a recorded teardown closure returns, and the trace it leaves. \<open>torn_down\<close> takes
  closures in the order they are to run and keeps them up to and including the first
  whose destructor returns an error; \<open>first_error\<close> is that error.
\<close>

definition dtor_result :: "closure \<Rightarrow> error option" where
  "dtor_result d = (case Destructor (cl_factory d) of None \<Rightarrow> None | Some g \<Rightarrow> g (cl_instance d))"

definition dtor_event :: "closure \<Rightarrow> event" where
  "dtor_event d = DtorCalled (fid (cl_factory d)) (cl_instance d)"

fun torn_down :: "closure list \<Rightarrow> closure list" where
  "torn_down [] = []"
| "torn_down (d # ds) = (if dtor_result d = None then d # torn_down ds else [d])"

fun first_error :: "closure list \<Rightarrow> error option" where
  "first_error [] = None"
| "first_error (d # ds) = (case dtor_result d of None \<Rightarrow> first_error ds | Some e \<Rightarrow> Some e)"

text \<open>
  The targets \<^verbatim>\<open>Inject\<close> accepts: a record value, or a reference to one. \<open>fields_of\<close>
  is the declared shape of the target.
\<close>

fun is_record_or_ref :: "val \<Rightarrow> bool" where
  "is_record_or_ref (StructV nm fs vs) = True"
| "is_record_or_ref (PtrV (TStruct nm fs) (Some a)) = True"
| "is_record_or_ref v = False"

fun fields_of :: "val \<Rightarrow> field list" where
  "fields_of (StructV nm fs vs) = fs"
| "fields_of (PtrV (TStruct nm fs) a) = fs"
| "fields_of v = []"

text \<open>
  Two states have the same registrations when their containers have the same parents,
  aliases and factories. \<open>frame c w w'\<close> says what a call on container \<open>c\<close> may have
  changed between \<open>w\<close> and \<open>w'\<close>: no registration, no container other than \<open>c\<close>
  and its root, and no object taken off the heap.
\<close>

definition same_registry :: "world \<Rightarrow> world \<Rightarrow> bool" where
  "same_registry w w' \<longleftrightarrow>
     length (conts w') = length (conts w) \<and> nfact w' = nfact w \<and>
     (\<forall>k. parent (conts w' ! k) = parent (conts w ! k)
        \<and> aliases (conts w' ! k) = aliases (conts w ! k)
        \<and> factories (conts w' ! k) = factories (conts w ! k))"

definition frame :: "nat \<Rightarrow> world \<Rightarrow> world \<Rightarrow> bool" where
  "frame c w w' \<longleftrightarrow>
     same_registry w w' \<and>
     (\<forall>k. k \<noteq> c \<and> k \<noteq> root w c \<longrightarrow> conts w' ! k = conts w ! k) \<and>
     length (heap w) \<le> length (heap w') \<and>
     (\<exists>evs. calls w' = calls w @ evs)"

definition frame_ok :: "callback \<Rightarrow> bool" where
  "frame_ok h \<longleftrightarrow> (\<forall>c rq w r w'. h c rq w = Done r w' \<longrightarrow> frame c w w')"

text \<open>
  The ancestors of a container, itself included: what is reached by following
  \<open>parent\<close> any number of times. The root of a container is its ancestor with no
  parent.
\<close>

definition parent_rel :: "world \<Rightarrow> (nat \<times> nat) set" where
  "parent_rel w = {(c, p). parent (conts w ! c) = Some p}"

definition ancestors :: "world \<Rightarrow> nat \<Rightarrow> nat set" where
  "ancestors w c = {a. (c, a) \<in> (parent_rel w)\<^sup>*}"

text \<open>
  Containers come from \<^verbatim>\<open>newContainer\<close> only, which links a new container to one
  made before it: in every state the code can reach, a parent's address is below its
  child's.
\<close>

definition wf_store :: "world \<Rightarrow> bool" where
  "wf_store w \<longleftrightarrow> (\<forall>c<length (conts w). \<forall>p. parent (conts w ! c) = Some p \<longrightarrow> p < c)"

text \<open>The Alias edges declared on a container and on every ancestor of it.\<close>

definition declared_edges :: "world \<Rightarrow> nat \<Rightarrow> (string \<times> string) set" where
  "declared_edges w this =
     (\<Union>c\<in>ancestors w this. (\<lambda>a. (aTag a, Aliased a)) ` set (aliases (conts w ! c)))"

text \<open>A constructor that makes no call on the container it is given.\<close>

primrec no_calls :: "prog \<Rightarrow> bool" where
  "no_calls (Return v e) = True"
| "no_calls (PanicP m) = True"
| "no_calls (NewObj t k) = (\<forall>v. no_calls (k v))"
| "no_calls (Call rq k) = False"

text \<open>The unfoldings that evaluate the operations on a given state.\<close>

lemmas registration_defs =
  Registry_def newContainer_def NewScope_def UseValue_def UseType_def UseFactory_def Use_def
  add_factory_def upd_cont_def

lemmas resolution_defs =
  Resolve_def ResolveAll_def lookup_def resolveAliases_def resolveAliases_loop.simps
  scan_aliases_def add_alias_def scope_chain.simps root.simps createInstance_def cached_def
  store_cache_def record_dtor_def call_ctor_def type_ctor_def reflect_New_def

text \<open>States used as examples.\<close>

definition plain_field :: "string \<Rightarrow> field" where
  "plain_field nm =
     \<lparr>fname = nm, ditag = [], exported = True, ftype = ''string'', fzero = False,
      accepts = [''string'']\<rparr>"


definition ok_factory :: "nat \<Rightarrow> factory" where
  "ok_factory n =
     \<lparr>fid = n, Tag = ''conn'', Lifetime = Transient,
      Constructor = FuncCtor (Some (Return (IntV (int n)) None)),
      Destructor = Some (\<lambda>v. None)\<rparr>"

definition bad_factory :: "nat \<Rightarrow> factory" where
  "bad_factory n =
     \<lparr>fid = n, Tag = ''conn'', Lifetime = Transient,
      Constructor = FuncCtor (Some (Return (IntV (int n)) None)),
      Destructor = Some (\<lambda>v. Some (UserError ''busy''))\<rparr>"

definition teardown_world :: world where
  "teardown_world =
     \<lparr>conts =
        [\<lparr>parent = None, aliases = [],
          factories = [ok_factory 0, ok_factory 1, bad_factory 2, ok_factory 3],
          cache = Map.empty,
          destructors = [\<lparr>cl_factory = ok_factory 0, cl_instance = IntV 0\<rparr>]\<rparr>,
         \<lparr>parent = Some 0, aliases = [], factories = [], cache = Map.empty,
          destructors =
            [\<lparr>cl_factory = ok_factory 1, cl_instance = IntV 1\<rparr>,
             \<lparr>cl_factory = bad_factory 2, cl_instance = IntV 2\<rparr>,
             \<lparr>cl_factory = ok_factory 3, cl_instance = IntV 3\<rparr>]\<rparr>],
      heap = [], nfact = 4, calls = []\<rparr>"

definition dep_field :: field where
  "dep_field =
     \<lparr>fname = ''Logger'', ditag = ''logger'', exported = True, ftype = ''di.Logger'',
      fzero = False, accepts = [''*di.myLogger'']\<rparr>"

text \<open>
  A registry with an alias whose target nothing is registered under, and a value under
  another tag.
\<close>

definition alias_only_world :: world where
  "alias_only_world =
     UseValue 0 ''greet'' (StrV ''hello'') (Use 0 ''logger'' ''*di.myLogger'' Registry)"

text \<open>
  A root that aliases \<open>b\<close> to \<open>a\<close> and to \<open>c\<close>, and a scope of it that aliases
  \<open>a\<close> to \<open>b\<close>: a cycle, and an edge that only the root declares.
\<close>

definition alias_cycle_world :: world where
  "alias_cycle_world =
     Use 1 ''a'' ''b'' (snd (NewScope 0 (Use 0 ''b'' ''c'' (Use 0 ''b'' ''a'' Registry))))"

text \<open>
  Two registries: the first holds nothing; the second holds one record and has two scopes
  made from it. The root of the scopes is at address 1.
\<close>

definition scope :: container where
  "scope = \<lparr>parent = Some 1, aliases = [], factories = [], cache = Map.empty, destructors = []\<rparr>"

definition scopes_world :: "factory \<Rightarrow> world" where
  "scopes_world f =
     \<lparr>conts =
        [\<lparr>parent = None, aliases = [], factories = [], cache = Map.empty, destructors = []\<rparr>,
         \<lparr>parent = None, aliases = [], factories = [f], cache = Map.empty, destructors = []\<rparr>,
         scope, scope],
      heap = [], nfact = 1, calls = []\<rparr>"

text \<open>
  A Singleton record with a destructor whose constructor makes a fresh object, and the state
  after resolving it on the first scope.
\<close>

definition DB :: rtype where
  "DB = TStruct ''di.DB'' [plain_field ''DSN'']"

definition db_factory :: factory where
  "db_factory =
     \<lparr>fid = 0, Tag = ''db'', Lifetime = Singleton,
      Constructor = FuncCtor (Some (NewObj DB (\<lambda>p. Return p None))),
      Destructor = Some (\<lambda>v. None)\<rparr>"

definition db_world :: world where
  "db_world =
     \<lparr>conts =
        [\<lparr>parent = None, aliases = [], factories = [], cache = Map.empty, destructors = []\<rparr>,
         \<lparr>parent = None, aliases = [], factories = [db_factory],
          cache = [0 \<mapsto> PtrV DB (Some (Obj 0))],
          destructors = [\<lparr>cl_factory = db_factory, cl_instance = PtrV DB (Some (Obj 0))\<rparr>]\<rparr>,
         scope, scope],
      heap = [zero_val DB], nfact = 1, calls = [CtorCalled 0 2]\<rparr>"

text \<open>
  A record with a destructor whose constructor returns an error, and a record with a
  destructor whose \<^verbatim>\<open>Lifetime\<close> is none of the three constants.
\<close>

definition failing_factory :: factory where
  "failing_factory =
     \<lparr>fid = 0, Tag = ''conn'', Lifetime = Transient,
      Constructor = FuncCtor (Some (Return NilV (Some (UserError ''refused'')))),
      Destructor = Some (\<lambda>v. None)\<rparr>"

definition odd_factory :: factory where
  "odd_factory =
     \<lparr>fid = 0, Tag = ''conn'', Lifetime = 7,
      Constructor = ValueCtor (IntV 5), Destructor = Some (\<lambda>v. None)\<rparr>"

text \<open>
  A Scoped record whose constructor returns a pointer to one shared object made
  beforehand
  (\<^verbatim>\<open>var shared = &Config{}; UseFactory("cfg", func(c Container) (interface{}, error) { return shared, nil }, nil, Scoped)\<close>),
  and the states after resolving it on the first scope, then on the second.
\<close>

definition Config :: rtype where
  "Config = TStruct ''di.Config'' [plain_field ''Path'']"

definition cfg_factory :: factory where
  "cfg_factory =
     \<lparr>fid = 0, Tag = ''cfg'', Lifetime = Scoped,
      Constructor = FuncCtor (Some (Return (PtrV Config (Some (Obj 0))) None)),
      Destructor = None\<rparr>"

definition cfg_world :: world where
  "cfg_world = (scopes_world cfg_factory)\<lparr>heap := [zero_val Config]\<rparr>"

definition cfg_world1 :: world where
  "cfg_world1 =
     \<lparr>conts =
        [\<lparr>parent = None, aliases = [], factories = [], cache = Map.empty, destructors = []\<rparr>,
         \<lparr>parent = None, aliases = [], factories = [cfg_factory], cache = Map.empty,
          destructors = []\<rparr>,
         scope\<lparr>cache := [0 \<mapsto> PtrV Config (Some (Obj 0))]\<rparr>, scope],
      heap = [zero_val Config], nfact = 1, calls = [CtorCalled 0 2]\<rparr>"

definition cfg_world2 :: world where
  "cfg_world2 =
     \<lparr>conts =
        [\<lparr>parent = None, aliases = [], factories = [], cache = Map.empty, destructors = []\<rparr>,
         \<lparr>parent = None, aliases = [], factories = [cfg_factory], cache = Map.empty,
          destructors = []\<rparr>,
         scope\<lparr>cache := [0 \<mapsto> PtrV Config (Some (Obj 0))]\<rparr>,
         scope\<lparr>cache := [0 \<mapsto> PtrV Config (Some (Obj 0))]\<rparr>],
      heap = [zero_val Config], nfact = 1,
      calls = [CtorCalled 0 2, CtorCalled 0 3]\<rparr>"

text \<open>
  \<^verbatim>\<open>root.RegisterType(&MyStruct{}, Scoped)\<close> of the tests, and the states after
  resolving it on the first scope, then on the second.
\<close>

definition MyStruct :: rtype where
  "MyStruct = TStruct ''di.MyStruct'' [plain_field ''Name'', plain_field ''Value'']"

definition mystruct_factory :: factory where
  "mystruct_factory =
     \<lparr>fid = 0, Tag = ''*di.MyStruct'', Lifetime = Scoped,
      Constructor = TypeCtor (Some (TPtr MyStruct)), Destructor = None\<rparr>"

definition mystruct_world1 :: world where
  "mystruct_world1 =
     \<lparr>conts =
        [\<lparr>parent = None, aliases = [], factories = [], cache = Map.empty, destructors = []\<rparr>,
         \<lparr>parent = None, aliases = [], factories = [mystruct_factory], cache = Map.empty,
          destructors = []\<rparr>,
         scope\<lparr>cache := [0 \<mapsto> PtrV MyStruct (Some (Obj 0))]\<rparr>, scope],
      heap = [zero_val MyStruct], nfact = 1, calls = [CtorCalled 0 2]\<rparr>"

definition mystruct_world2 :: world where
  "mystruct_world2 =
     \<lparr>conts =
        [\<lparr>parent = None, aliases = [], factories = [], cache = Map.empty, destructors = []\<rparr>,
         \<lparr>parent = None, aliases = [], factories = [mystruct_factory], cache = Map.empty,
          destructors = []\<rparr>,
         scope\<lparr>cache := [0 \<mapsto> PtrV MyStruct (Some (Obj 0))]\<rparr>,
         scope\<lparr>cache := [0 \<mapsto> PtrV MyStruct (Some (Obj 1))]\<rparr>],
      heap = [zero_val MyStruct, zero_val MyStruct], nfact = 1,
      calls = [CtorCalled 0 2, CtorCalled 0 3]\<rparr>"

text \<open>
  \<^verbatim>\<open>type myLogger struct {}\<close> of the example, a type of size zero, registered with
  \<^verbatim>\<open>RegisterType(&myLogger{}, Scoped)\<close>.
\<close>

definition myLogger :: rtype where
  "myLogger = TStruct ''di.myLogger'' []"

definition mylogger_factory :: factory where
  "mylogger_factory =
     \<lparr>fid = 0, Tag = ''*di.myLogger'', Lifetime = Scoped,
      Constructor = TypeCtor (Some (TPtr myLogger)), Destructor = None\<rparr>"

text \<open>
  \<^verbatim>\<open>type myModule struct { Logger Logger `di:"logger"` }\<close> registered with
  \<^verbatim>\<open>UseType\<close>, and nothing registered under \<^verbatim>\<open>logger\<close>.
\<close>

definition myModule :: rtype where
  "myModule = TStruct ''di.myModule'' [dep_field]"

definition module_world :: world where
  "module_world = UseType 0 ''module'' (PtrV myModule None) Transient Registry"

definition module_factory :: factory where
  "module_factory =
     \<lparr>fid = 0, Tag = ''module'', Lifetime = Transient,
      Constructor = TypeCtor (Some (TPtr myModule)), Destructor = None\<rparr>"

text \<open>
  Three Scoped records with destructors: one that constructs, one whose constructor
  resolves the first and then returns an error, one whose constructor returns an error at
  once; and the state after the failed resolution of the second.
\<close>

definition dep_factory :: factory where
  "dep_factory =
     \<lparr>fid = 0, Tag = ''dep'', Lifetime = Scoped,
      Constructor = FuncCtor (Some (Return (IntV 7) None)), Destructor = Some (\<lambda>v. None)\<rparr>"

definition svc_factory :: factory where
  "svc_factory =
     \<lparr>fid = 1, Tag = ''svc'', Lifetime = Scoped,
      Constructor =
        FuncCtor (Some (Call (ReqResolve ''dep'')
                          (\<lambda>r. Return NilV (Some (UserError ''no service''))))),
      Destructor = Some (\<lambda>v. None)\<rparr>"

definition broken_factory :: factory where
  "broken_factory =
     \<lparr>fid = 2, Tag = ''broken'', Lifetime = Scoped,
      Constructor = FuncCtor (Some (Return NilV (Some (UserError ''no service'')))),
      Destructor = Some (\<lambda>v. None)\<rparr>"

definition svc_world :: world where
  "svc_world =
     \<lparr>conts =
        [\<lparr>parent = None, aliases = [], factories = [dep_factory, svc_factory, broken_factory],
          cache = Map.empty, destructors = []\<rparr>],
      heap = [], nfact = 3, calls = []\<rparr>"

definition svc_world_failed :: world where
  "svc_world_failed =
     \<lparr>conts =
        [\<lparr>parent = None, aliases = [], factories = [dep_factory, svc_factory, broken_factory],
          cache = [0 \<mapsto> IntV 7],
          destructors = [\<lparr>cl_factory = dep_factory, cl_instance = IntV 7\<rparr>]\<rparr>],
      heap = [], nfact = 3, calls = [CtorCalled 1 0, CtorCalled 0 0]\<rparr>"

section \<open>Properties of alias resolution\<close>

text \<open>
  One pass over the aliases, started from a list without duplicates, leaves it without
  duplicates, appends only tags aliased by \<open>tags ! i\<close>, and leaves every such tag in the
  list.
\<close>

lemma foldl_add_alias_closed:
  assumes "i < length tags" "distinct tags"
  shows "\<exists>ys. foldl (add_alias i) tags as = tags @ ys
           \<and> distinct (tags @ ys)
           \<and> set ys \<subseteq> {Aliased a |a. a \<in> set as \<and> aTag a = tags ! i}
           \<and> {Aliased a |a. a \<in> set as \<and> aTag a = tags ! i} \<subseteq> set (tags @ ys)"
  using assms
proof (induction as arbitrary: tags)
  case Nil
  then show ?case by simp
next
  case (Cons a as)
  let ?t1 = "add_alias i tags a"
  have t1: "\<exists>ys. ?t1 = tags @ ys \<and> distinct (tags @ ys)
      \<and> set ys \<subseteq> {Aliased a' |a'. a' = a \<and> aTag a' = tags ! i}
      \<and> (aTag a = tags ! i \<longrightarrow> Aliased a \<in> set (tags @ ys))"
    using Cons.prems by (auto simp: add_alias_def)
  then obtain ys where ys: "?t1 = tags @ ys" "distinct (tags @ ys)"
      "set ys \<subseteq> {Aliased a' |a'. a' = a \<and> aTag a' = tags ! i}"
      "aTag a = tags ! i \<longrightarrow> Aliased a \<in> set (tags @ ys)"
    by blast
  have i': "i < length (tags @ ys)" using Cons.prems by simp
  have nth: "(tags @ ys) ! i = tags ! i" using Cons.prems by (simp add: nth_append)
  from Cons.IH [OF i' ys(2)] obtain zs where zs:
      "foldl (add_alias i) (tags @ ys) as = (tags @ ys) @ zs"
      "distinct ((tags @ ys) @ zs)"
      "set zs \<subseteq> {Aliased a |a. a \<in> set as \<and> aTag a = tags ! i}"
      "{Aliased a |a. a \<in> set as \<and> aTag a = tags ! i} \<subseteq> set ((tags @ ys) @ zs)"
    unfolding nth by blast
  have 1: "foldl (add_alias i) tags (a # as) = tags @ (ys @ zs)"
    using ys(1) zs(1) by simp
  have 2: "distinct (tags @ (ys @ zs))" using zs(2) by simp
  have 3: "set (ys @ zs) \<subseteq> {Aliased a' |a'. a' \<in> set (a # as) \<and> aTag a' = tags ! i}"
    using ys(3) zs(3) by auto
  have 4: "{Aliased a' |a'. a' \<in> set (a # as) \<and> aTag a' = tags ! i} \<subseteq> set (tags @ (ys @ zs))"
    using ys(4) zs(4) by auto
  from 1 2 3 4 show ?case by blast
qed

lemma resolveAliases_loop_inv:
  assumes "tag \<in> set tags"
    and "set tags \<subseteq> {t. (tag, t) \<in> (alias_edges w this)\<^sup>*}"
    and "distinct tags"
    and "\<forall>j<i. \<forall>a\<in>set (all_aliases w this). aTag a = tags ! j \<longrightarrow> Aliased a \<in> set tags"
    and "i \<le> length tags"
  shows "set (resolveAliases_loop w this i tags) = {t. (tag, t) \<in> (alias_edges w this)\<^sup>*}
       \<and> distinct (resolveAliases_loop w this i tags)"
  using assms
proof (induction w this i tags rule: resolveAliases_loop.induct)
  case (1 w this i tags)
  let ?E = "alias_edges w this"
  let ?A = "all_aliases w this"
  show ?case
  proof (cases "i < length tags")
    case False
    then have i: "i = length tags" using "1.prems"(5) by simp
    have "t \<in> set tags" if "(tag, t) \<in> ?E\<^sup>*" for t
      using that
    proof (induction rule: rtrancl_induct)
      case base
      then show ?case using "1.prems"(1) .
    next
      case (step y z)
      from step.hyps(2) obtain a where a: "a \<in> set ?A" "aTag a = y" "Aliased a = z"
        by (auto simp: alias_edges_def)
      from step.IH obtain j where j: "j < length tags" "tags ! j = y"
        by (auto simp: in_set_conv_nth)
      with a "1.prems"(4) i show ?case by auto
    qed
    then have "set tags = {t. (tag, t) \<in> ?E\<^sup>*}" using "1.prems"(2) by auto
    then show ?thesis using False "1.prems"(3) by simp
  next
    case True
    from foldl_add_alias_closed [OF True "1.prems"(3), of ?A] obtain ys where ys:
      "scan_aliases w this i tags = tags @ ys" "distinct (tags @ ys)"
      "set ys \<subseteq> {Aliased a |a. a \<in> set ?A \<and> aTag a = tags ! i}"
      "{Aliased a |a. a \<in> set ?A \<and> aTag a = tags ! i} \<subseteq> set (tags @ ys)"
      unfolding scan_aliases_concat by blast
    let ?tags' = "scan_aliases w this i tags"
    have p1: "tag \<in> set ?tags'" using ys(1) "1.prems"(1) by simp
    have ti: "(tag, tags ! i) \<in> ?E\<^sup>*" using "1.prems"(2) True by (auto simp: subset_iff)
    have "(tag, t) \<in> ?E\<^sup>*" if "t \<in> set ys" for t
    proof -
      from that ys(3) obtain a where "a \<in> set ?A" "aTag a = tags ! i" "Aliased a = t" by blast
      then have "(tags ! i, t) \<in> ?E" by (force simp: alias_edges_def)
      with ti show ?thesis by (rule rtrancl_into_rtrancl)
    qed
    then have p2: "set ?tags' \<subseteq> {t. (tag, t) \<in> ?E\<^sup>*}"
      using ys(1) "1.prems"(2) by auto
    have p3: "distinct ?tags'" using ys by simp
    have p4: "\<forall>j<Suc i. \<forall>a\<in>set ?A. aTag a = ?tags' ! j \<longrightarrow> Aliased a \<in> set ?tags'"
    proof (intro allI impI ballI)
      fix j a
      assume j: "j < Suc i" and a: "a \<in> set ?A" and eq: "aTag a = ?tags' ! j"
      have nth: "?tags' ! j = tags ! j" using j True ys(1) by (simp add: nth_append)
      show "Aliased a \<in> set ?tags'"
      proof (cases "j = i")
        case True
        then show ?thesis using a eq nth ys(4) ys(1) by auto
      next
        case False
        then have "j < i" using j by simp
        then have "Aliased a \<in> set tags" using "1.prems"(4) a eq nth by auto
        then show ?thesis using ys(1) by simp
      qed
    qed
    have p5: "Suc i \<le> length ?tags'" using True ys(1) by simp
    from "1.IH" [OF True p1 p2 p3 p4 p5] True show ?thesis by simp
  qed
qed

lemma resolveAliases_set_distinct:
  "set (resolveAliases w this tag) = {t. (tag, t) \<in> (alias_edges w this)\<^sup>*}
   \<and> distinct (resolveAliases w this tag)"
  unfolding resolveAliases_def
  by (rule resolveAliases_loop_inv) auto


declare root.simps [simp del] scope_chain.simps [simp del] resolveAliases_loop.simps [simp del]

section \<open>Properties of the parent chain\<close>

text \<open>
  In a state where parents are below their children, the walk
  \<^verbatim>\<open>for c := this; c != nil; c = c.parent\<close> visits the ancestors of \<open>this\<close> and
  no other container, and the root the code finds is the one ancestor with no parent.
\<close>

lemma ancestors_unfold:
  "ancestors w c =
     (case parent (conts w ! c) of None \<Rightarrow> {c} | Some p \<Rightarrow> insert c (ancestors w p))"
proof -
  have "(c, a) \<in> (parent_rel w)\<^sup>* \<longleftrightarrow>
      a = c \<or> (\<exists>p. parent (conts w ! c) = Some p \<and> (p, a) \<in> (parent_rel w)\<^sup>*)" for a
  proof
    assume "(c, a) \<in> (parent_rel w)\<^sup>*"
    then show "a = c \<or> (\<exists>p. parent (conts w ! c) = Some p \<and> (p, a) \<in> (parent_rel w)\<^sup>*)"
      by (cases rule: converse_rtranclE) (auto simp: parent_rel_def)
  next
    assume "a = c \<or> (\<exists>p. parent (conts w ! c) = Some p \<and> (p, a) \<in> (parent_rel w)\<^sup>*)"
    then show "(c, a) \<in> (parent_rel w)\<^sup>*"
      by (auto simp: parent_rel_def intro: converse_rtrancl_into_rtrancl)
  qed
  then show ?thesis by (auto simp: ancestors_def split: option.splits)
qed

lemma ancestors_self: "c \<in> ancestors w c"
  by (simp add: ancestors_def)

lemma scope_chain_ancestors:
  assumes "wf_store w" "c < length (conts w)"
  shows "set (scope_chain w c) = ancestors w c"
  using assms(2)
proof (induction c rule: less_induct)
  case (less c)
  show ?case
  proof (cases "parent (conts w ! c)")
    case None
    then show ?thesis by (simp add: scope_chain.simps [of w c] ancestors_unfold [of w c])
  next
    case (Some p)
    with assms(1) less.prems have "p < c" by (auto simp: wf_store_def)
    with less Some show ?thesis
      by (simp add: scope_chain.simps [of w c] ancestors_unfold [of w c])
  qed
qed

lemma root_ancestor:
  assumes "wf_store w" "c < length (conts w)"
  shows "root w c \<in> ancestors w c \<and> parent (conts w ! root w c) = None"
  using assms(2)
proof (induction c rule: less_induct)
  case (less c)
  show ?case
  proof (cases "parent (conts w ! c)")
    case None
    then show ?thesis by (simp add: root.simps [of w c] ancestors_self)
  next
    case (Some p)
    with assms(1) less.prems have "p < c" by (auto simp: wf_store_def)
    with less Some show ?thesis
      by (simp add: root.simps [of w c] ancestors_unfold [of w c])
  qed
qed

lemma root_unique:
  assumes "wf_store w" "c < length (conts w)"
    and "r \<in> ancestors w c" "parent (conts w ! r) = None"
  shows "r = root w c"
  using assms(2,3)
proof (induction c rule: less_induct)
  case (less c)
  show ?case
  proof (cases "parent (conts w ! c)")
    case None
    with less.prems(2) show ?thesis
      by (simp add: root.simps [of w c] ancestors_unfold [of w c])
  next
    case (Some p)
    with assms(1) less.prems(1) have p: "p < c" by (auto simp: wf_store_def)
    from Some assms(4) have "r \<noteq> c" by auto
    with less.prems(2) Some have "r \<in> ancestors w p"
      by (simp add: ancestors_unfold [of w c])
    with less.IH [of p] p less.prems(1) have "r = root w p" by simp
    with Some p show ?thesis by (simp add: root.simps [of w c])
  qed
qed

lemma alias_edges_declared:
  assumes "wf_store w" "this < length (conts w)"
  shows "alias_edges w this = declared_edges w this"
  by (auto simp: alias_edges_def all_aliases_def declared_edges_def
      scope_chain_ancestors [OF assms, symmetric])

text \<open>
  The package starts in such a state, and making a scope of a container that exists
  keeps it so.
\<close>

lemma wf_store_Registry: "wf_store Registry"
  by (simp add: wf_store_def Registry_def newContainer_def)

lemma wf_store_NewScope:
  assumes "wf_store w" "this < length (conts w)"
  shows "wf_store (snd (NewScope this w))"
  using assms
  by (auto simp: wf_store_def NewScope_def newContainer_def nth_append less_Suc_eq)

section \<open>The alias set\<close>

text \<open>
  Claim C7. For every container and starting tag the alias-set computation terminates,
  also when the Alias declarations on the container and its ancestors form a cycle
  (\<open>resolveAliases\<close> is a total function: its loop was shown to end for every state and
  every tag); a tag already in the accumulated list is never appended again (the result
  has no duplicates); and, for a container of a state where parents were made before
  their children, the result is the set of tags reachable from the starting tag by
  following, any number of times, Alias edges declared on the container and on every
  ancestor of it.
\<close>

theorem resolveAliases_reachable:
  "distinct (resolveAliases w this tag)
   \<and> (wf_store w \<and> this < length (conts w) \<longrightarrow>
        set (resolveAliases w this tag) = {t. (tag, t) \<in> (declared_edges w this)\<^sup>*})"
  using resolveAliases_set_distinct [of w this tag] by (simp add: alias_edges_declared)

text \<open>
  A scope aliasing \<open>a\<close> to \<open>b\<close> whose root aliases \<open>b\<close> back to \<open>a\<close> and on to
  \<open>c\<close>: the computation started at \<open>a\<close> on the scope ends with the three tags, the
  last of which only an edge of the root reaches.
\<close>

theorem resolveAliases_reachable_witness:
  "wf_store alias_cycle_world \<and> 1 < length (conts alias_cycle_world)
   \<and> resolveAliases alias_cycle_world 1 ''a'' = [''a'', ''b'', ''c'']
   \<and> {t. (''a'', t) \<in> (declared_edges alias_cycle_world 1)\<^sup>*} = {''a'', ''b'', ''c''}"
proof -
  have a: "wf_store alias_cycle_world"
    by (simp add: wf_store_def alias_cycle_world_def registration_defs less_Suc_eq)
  have b: "1 < length (conts alias_cycle_world)"
    by (simp add: alias_cycle_world_def registration_defs)
  have c: "resolveAliases alias_cycle_world 1 ''a'' = [''a'', ''b'', ''c'']"
    by (simp add: alias_cycle_world_def registration_defs resolveAliases_def
        resolveAliases_loop.simps scan_aliases_def add_alias_def scope_chain.simps)
  from resolveAliases_reachable [of alias_cycle_world 1 "''a''"] a b
  have "set (resolveAliases alias_cycle_world 1 ''a'') =
      {t. (''a'', t) \<in> (declared_edges alias_cycle_world 1)\<^sup>*}"
    by simp
  with a b c show ?thesis by auto
qed


section \<open>Properties of the search\<close>

lemma Contains_set: "Contains tags tag = (tag \<in> set tags)"
  by (induction tags) auto

lemma find_factory_filter:
  "i \<le> length fs \<Longrightarrow>
   find_factory tags fs i =
     (if filter (\<lambda>f. Tag f \<in> set tags) (take i fs) = [] then None
      else Some (last (filter (\<lambda>f. Tag f \<in> set tags) (take i fs))))"
proof (induction i)
  case 0
  then show ?case by simp
next
  case (Suc i)
  then have "take (Suc i) fs = take i fs @ [fs ! i]"
    by (simp add: take_Suc_conv_app_nth)
  then show ?case using Suc by (simp add: Contains_set)
qed

lemma search_filter:
  "search w tags cs =
     (if concat (map (\<lambda>c. filter (\<lambda>f. Tag f \<in> set tags) (factories (conts w ! c))) (rev cs)) = []
      then None
      else Some (last (concat (map (\<lambda>c. filter (\<lambda>f. Tag f \<in> set tags) (factories (conts w ! c)))
                                (rev cs)))))"
proof (induction cs)
  case Nil
  then show ?case by simp
next
  case (Cons c cs)
  show ?case
  proof (cases "filter (\<lambda>f. Tag f \<in> set tags) (factories (conts w ! c)) = []")
    case True
    then show ?thesis using Cons by (simp add: find_factory_filter)
  next
    case False
    then show ?thesis by (simp add: find_factory_filter)
  qed
qed

lemma collect_filter:
  "i \<le> length fs \<Longrightarrow>
   collect tags fs i acc = acc @ rev (filter (\<lambda>f. Tag f \<in> set tags) (take i fs))"
proof (induction i arbitrary: acc)
  case 0
  then show ?case by simp
next
  case (Suc i)
  then have "take (Suc i) fs = take i fs @ [fs ! i]"
    by (simp add: take_Suc_conv_app_nth)
  then show ?case using Suc by (simp add: Contains_set)
qed

lemma collect_chain_filter:
  "collect_chain w tags cs acc =
     acc @ concat (map (\<lambda>c. rev (filter (\<lambda>f. Tag f \<in> set tags) (factories (conts w ! c)))) cs)"
  by (induction cs arbitrary: acc) (simp_all add: collect_filter)

lemma collect_chain_rev:
  "rev (collect_chain w tags cs []) =
     concat (map (\<lambda>c. filter (\<lambda>f. Tag f \<in> set tags) (factories (conts w ! c))) (rev cs))"
  by (simp add: collect_chain_filter rev_concat rev_map comp_def)

lemma create_loop_each:
  "i \<le> length fs \<Longrightarrow>
   create_loop h this fs i acc w =
     bind (create_each h this (rev (take i fs)) w)
       (\<lambda>(vs, err) w'.
          case err of Some e \<Rightarrow> Done ([], Some e) w' | None \<Rightarrow> Done (acc @ vs, None) w')"
proof (induction i arbitrary: acc w)
  case 0
  then show ?case by simp
next
  case (Suc i)
  then have t: "rev (take (Suc i) fs) = fs ! i # rev (take i fs)"
    by (simp add: take_Suc_conv_app_nth)
  have i: "i \<le> length fs" using Suc.prems by simp
  show ?case
  proof (cases "createInstance h this (fs ! i) w")
    case (Done r w1)
    obtain v err where r: "r = (v, err)" by (cases r)
    show ?thesis
    proof (cases err)
      case None
      show ?thesis
        unfolding t using Done r None Suc.IH [OF i, of "acc @ [v]" w1]
        by (cases "create_each h this (rev (take i fs)) w1")
           (auto split: option.splits)
    next
      case (Some e)
      then show ?thesis unfolding t using Done r by simp
    qed
  next
    case (Panic m)
    then show ?thesis unfolding t by simp
  next
    case Diverge
    then show ?thesis unfolding t by simp
  qed
qed

lemma create_each_shape:
  "create_each h this fs w = Done (vs, err) w' \<Longrightarrow> err \<noteq> None \<Longrightarrow> vs = []"
proof (induction fs arbitrary: w vs w')
  case Nil
  then show ?case by simp
next
  case (Cons f fs)
  show ?case
  proof (cases "createInstance h this f w")
    case (Done r w1)
    obtain v e where r: "r = (v, e)" by (cases r)
    show ?thesis
    proof (cases e)
      case None
      show ?thesis
      proof (cases "create_each h this fs w1")
        case (Done r2 w2)
        obtain vs2 e2 where r2: "r2 = (vs2, e2)" by (cases r2)
        show ?thesis using Cons.prems \<open>createInstance h this f w = Done r w1\<close> r None Done r2
          by (cases e2) auto
      next
        case (Panic m)
        then show ?thesis
          using Cons.prems \<open>createInstance h this f w = Done r w1\<close> r None by simp
      next
        case Diverge
        then show ?thesis
          using Cons.prems \<open>createInstance h this f w = Done r w1\<close> r None by simp
      qed
    next
      case (Some e')
      then show ?thesis using Cons.prems Done r by simp
    qed
  next
    case (Panic m)
    then show ?thesis using Cons.prems by simp
  next
    case Diverge
    then show ?thesis using Cons.prems by simp
  qed
qed

lemma ResolveAll_each:
  "ResolveAll h this tag w = create_each h this (matching w this tag) w"
proof -
  let ?fs = "collect_chain w (resolveAliases w this tag) (scope_chain w this) []"
  have "create_loop h this ?fs (length ?fs) [] w =
     bind (create_each h this (rev ?fs) w)
       (\<lambda>(vs, err) w'.
          case err of Some e \<Rightarrow> Done ([], Some e) w' | None \<Rightarrow> Done ([] @ vs, None) w')"
    using create_loop_each [of "length ?fs" ?fs h this "[]" w] by simp
  also have "\<dots> = create_each h this (rev ?fs) w"
  proof (cases "create_each h this (rev ?fs) w")
    case (Done r w')
    obtain vs err where r: "r = (vs, err)" by (cases r)
    show ?thesis using Done r create_each_shape [of h this "rev ?fs" w vs err w']
      by (cases err) auto
  qed simp_all
  finally show ?thesis
    by (simp add: ResolveAll_def matching_def collect_chain_rev)
qed

lemma lookup_matching:
  "lookup w this tag =
     (if matching w this tag = [] then None else Some (last (matching w this tag)))"
  by (simp add: lookup_def matching_def search_filter)






section \<open>Properties of teardown\<close>

lemma close_loop_rev:
  assumes "\<forall>d\<in>set ds. Destructor (cl_factory d) \<noteq> None"
  shows "i \<le> length ds \<Longrightarrow>
    close_loop ds i w =
      Done (first_error (rev (take i ds)))
           (w\<lparr>calls := calls w @ map dtor_event (torn_down (rev (take i ds)))\<rparr>)"
proof (induction i arbitrary: w)
  case 0
  then show ?case by simp
next
  case (Suc i)
  then have t: "rev (take (Suc i) ds) = ds ! i # rev (take i ds)"
    by (simp add: take_Suc_conv_app_nth)
  have "ds ! i \<in> set ds" using Suc.prems by simp
  then obtain g where g: "Destructor (cl_factory (ds ! i)) = Some g"
    using assms by blast
  have i: "i \<le> length ds" using Suc.prems by simp
  show ?case unfolding t using g Suc.IH [OF i]
    by (simp add: dtor_result_def dtor_event_def Let_def split: option.splits)
qed

lemma torn_down_all_ok:
  "\<forall>x\<in>set ds. dtor_result x = None \<Longrightarrow> torn_down (ds @ rest) = ds @ torn_down rest"
  by (induction ds) auto

lemma first_error_all_ok:
  "\<forall>x\<in>set ds. dtor_result x = None \<Longrightarrow> first_error (ds @ rest) = first_error rest"
  by (induction ds) auto

text \<open>
  Claim C5. \<^verbatim>\<open>Close\<close> empties the pending-destructor list of the calling container
  and of no other, and runs the closures it held from the most recently recorded to the
  first recorded: the calls made are those of \<open>torn_down\<close> on the reversed list. When
  a destructor returns an error and all recorded after it returned none, the closures
  run are those recorded after it, latest first, then it; the ones recorded before it do
  not run, and \<^verbatim>\<open>Close\<close> returns its error. When none returns an error all run and
  \<^verbatim>\<open>Close\<close> returns none. (Every recorded closure has a destructor: one is recorded
  only when \<^verbatim>\<open>f.Destructor != nil\<close>.)
\<close>

theorem Close_reverse_order:
  assumes "\<forall>d\<in>set (destructors (conts w ! this)). Destructor (cl_factory d) \<noteq> None"
  shows "Close this w =
           Done (first_error (rev (destructors (conts w ! this))))
             ((upd_cont this (\<lambda>k. k\<lparr>destructors := []\<rparr>) w)
                \<lparr>calls := calls w @ map dtor_event (torn_down (rev (destructors (conts w ! this))))\<rparr>)
       \<and> (\<forall>before d after e.
             destructors (conts w ! this) = before @ d # after
             \<and> dtor_result d = Some e \<and> (\<forall>x\<in>set after. dtor_result x = None)
             \<longrightarrow> torn_down (rev (destructors (conts w ! this))) = rev after @ [d]
               \<and> first_error (rev (destructors (conts w ! this))) = Some e)
       \<and> ((\<forall>x\<in>set (destructors (conts w ! this)). dtor_result x = None)
             \<longrightarrow> torn_down (rev (destructors (conts w ! this))) = rev (destructors (conts w ! this))
               \<and> first_error (rev (destructors (conts w ! this))) = None)"
proof (intro conjI allI impI)
  let ?ds = "destructors (conts w ! this)"
  show "Close this w =
           Done (first_error (rev ?ds))
             ((upd_cont this (\<lambda>k. k\<lparr>destructors := []\<rparr>) w)
                \<lparr>calls := calls w @ map dtor_event (torn_down (rev ?ds))\<rparr>)"
    using close_loop_rev [OF assms, of "length ?ds"]
    by (simp add: Close_def Let_def upd_cont_def)
next
  fix before d after e
  assume h: "destructors (conts w ! this) = before @ d # after
             \<and> dtor_result d = Some e \<and> (\<forall>x\<in>set after. dtor_result x = None)"
  then have ok: "\<forall>x\<in>set (rev after). dtor_result x = None" by simp
  show "torn_down (rev (destructors (conts w ! this))) = rev after @ [d]"
    using h torn_down_all_ok [OF ok, of "d # rev before"] by simp
  show "first_error (rev (destructors (conts w ! this))) = Some e"
    using h first_error_all_ok [OF ok, of "d # rev before"] by simp
next
  assume h: "\<forall>x\<in>set (destructors (conts w ! this)). dtor_result x = None"
  then have ok: "\<forall>x\<in>set (rev (destructors (conts w ! this))). dtor_result x = None" by simp
  show "torn_down (rev (destructors (conts w ! this))) = rev (destructors (conts w ! this))"
    using torn_down_all_ok [OF ok, of "[]"] by simp
  show "first_error (rev (destructors (conts w ! this))) = None"
    using first_error_all_ok [OF ok, of "[]"] by simp
qed

text \<open>
  A scope with three pending closures, the second of which fails, under a root with one:
  the third runs, the second runs and fails, the first does not run, the root's stays.
\<close>

theorem Close_reverse_order_witness:
  "Close 1 teardown_world =
     Done (Some (UserError ''busy''))
       \<lparr>conts =
          [\<lparr>parent = None, aliases = [],
            factories = [ok_factory 0, ok_factory 1, bad_factory 2, ok_factory 3],
            cache = Map.empty,
            destructors = [\<lparr>cl_factory = ok_factory 0, cl_instance = IntV 0\<rparr>]\<rparr>,
           \<lparr>parent = Some 0, aliases = [], factories = [], cache = Map.empty,
            destructors = []\<rparr>],
        heap = [], nfact = 4,
        calls = [DtorCalled 3 (IntV 3), DtorCalled 2 (IntV 2)]\<rparr>"
proof -
  have h: "\<forall>d\<in>set (destructors (conts teardown_world ! 1)). Destructor (cl_factory d) \<noteq> None"
    by (simp add: teardown_world_def ok_factory_def bad_factory_def)
  from Close_reverse_order [OF h] show ?thesis
    by (simp add: teardown_world_def ok_factory_def bad_factory_def dtor_result_def
        dtor_event_def upd_cont_def)
qed

section \<open>Properties of injection\<close>

lemma inject_fields_error:
  "inject_fields h this target fs i w = Done (Some e) w' \<Longrightarrow>
   \<exists>fld w1 x. fld \<in> set fs \<and> ditag fld \<noteq> []
      \<and> Resolve h this (ditag fld) w1 = Done (x, Some e) w'"
proof (induction fs arbitrary: i w)
  case Nil
  then show ?case by simp
next
  case (Cons f fs)
  have later: ?case if "inject_fields h this target fs j w2 = Done (Some e) w'" for j w2
  proof -
    from Cons.IH [OF that] obtain fld w1 x where
      "fld \<in> set fs" "ditag fld \<noteq> []" "Resolve h this (ditag fld) w1 = Done (x, Some e) w'"
      by blast
    then show ?thesis
      by (intro exI [of _ fld] exI [of _ w1] exI [of _ x]) simp
  qed
  show ?case
  proof (cases "ditag f = []")
    case True
    then show ?thesis using Cons.prems later by simp
  next
    case False
    show ?thesis
    proof (cases "Resolve h this (ditag f) w")
      case (Done r w1)
      obtain fi err where r: "r = (fi, err)" by (cases r)
      show ?thesis
      proof (cases err)
        case None
        show ?thesis
        proof (cases "Set_field target f i fi w1")
          case (Done u w2)
          with Cons.prems False \<open>Resolve h this (ditag f) w = Done r w1\<close> r None
          have "inject_fields h this target fs (Suc i) w2 = Done (Some e) w'" by simp
          then show ?thesis by (rule later)
        next
          case (Panic m)
          with Cons.prems False \<open>Resolve h this (ditag f) w = Done r w1\<close> r None
          show ?thesis by simp
        next
          case Diverge
          with Cons.prems False \<open>Resolve h this (ditag f) w = Done r w1\<close> r None
          show ?thesis by simp
        qed
      next
        case (Some e')
        with Cons.prems False Done r have "e' = e" "w1 = w'" by simp_all
        with Done r Some False show ?thesis
          by (intro exI [of _ f] exI [of _ w] exI [of _ fi]) simp
      qed
    next
      case (Panic m)
      then show ?thesis using Cons.prems False by simp
    next
      case Diverge
      then show ?thesis using Cons.prems False by simp
    qed
  qed
qed

lemma Inject_fields_of:
  "Inject h this v w = Done r w' \<Longrightarrow>
   \<exists>target. inject_fields h this target (fields_of v) 0 w = Done r w'"
  by (induction h this v w rule: Inject.induct) auto

text \<open>
  Claim C8. For every value that is neither a record value nor a reference to one,
  \<^verbatim>\<open>Inject\<close> panics: it does not return. And an error that \<^verbatim>\<open>Inject\<close> does return
  is the error of the \<^verbatim>\<open>Resolve\<close> of one of the annotated fields of its target.
\<close>

theorem Inject_panics_on_non_record:
  "(\<not> is_record_or_ref v \<longrightarrow> (\<exists>m. Inject h this v w = Panic m))
   \<and> (\<forall>e w'. Inject h this v w = Done (Some e) w' \<longrightarrow>
        (\<exists>fld w1 x. fld \<in> set (fields_of v) \<and> ditag fld \<noteq> []
           \<and> Resolve h this (ditag fld) w1 = Done (x, Some e) w'))"
proof (intro conjI allI impI)
  assume "\<not> is_record_or_ref v"
  then show "\<exists>m. Inject h this v w = Panic m"
    by (induction h this v w rule: Inject.induct) simp_all
next
  fix e w'
  assume "Inject h this v w = Done (Some e) w'"
  from Inject_fields_of [OF this] obtain target
    where "inject_fields h this target (fields_of v) 0 w = Done (Some e) w'" ..
  then show "\<exists>fld w1 x. fld \<in> set (fields_of v) \<and> ditag fld \<noteq> []
           \<and> Resolve h this (ditag fld) w1 = Done (x, Some e) w'"
    by (rule inject_fields_error)
qed

text \<open>
  \<^verbatim>\<open>Inject(5)\<close> panics; \<^verbatim>\<open>Inject\<close> of a struct whose field asks for a tag that
  nothing is registered under returns the error of that \<^verbatim>\<open>Resolve\<close>.
\<close>

theorem Inject_panics_on_non_record_witness:
  "(\<exists>m. Inject (handler 0) 0 (IntV 5) Registry = Panic m)
   \<and> Inject (handler 0) 0 (StructV ''di.myModule'' [dep_field] [NilV]) Registry =
       Done (Some ErrNoMatchingTag) Registry
   \<and> (\<exists>fld w1 x. fld \<in> set (fields_of (StructV ''di.myModule'' [dep_field] [NilV]))
         \<and> ditag fld \<noteq> []
         \<and> Resolve (handler 0) 0 (ditag fld) w1 = Done (x, Some ErrNoMatchingTag) Registry)"
proof -
  have a: "\<not> is_record_or_ref (IntV 5)" by simp
  have b: "Inject (handler 0) 0 (StructV ''di.myModule'' [dep_field] [NilV]) Registry =
       Done (Some ErrNoMatchingTag) Registry"
    by (simp add: dep_field_def registration_defs resolution_defs)
  from Inject_panics_on_non_record [of "IntV 5" "handler 0" 0 Registry] a
  have 1: "\<exists>m. Inject (handler 0) 0 (IntV 5) Registry = Panic m" by blast
  from Inject_panics_on_non_record
    [of "StructV ''di.myModule'' [dep_field] [NilV]" "handler 0" 0 Registry] b
  have 2: "\<exists>fld w1 x. fld \<in> set (fields_of (StructV ''di.myModule'' [dep_field] [NilV]))
         \<and> ditag fld \<noteq> []
         \<and> Resolve (handler 0) 0 (ditag fld) w1 = Done (x, Some ErrNoMatchingTag) Registry"
    by blast
  from 1 b 2 show ?thesis by blast
qed

section \<open>What a call leaves unchanged\<close>

lemma same_registry_refl: "same_registry w w"
  by (simp add: same_registry_def)

lemma same_registry_trans:
  "same_registry w w1 \<Longrightarrow> same_registry w1 w2 \<Longrightarrow> same_registry w w2"
  by (simp add: same_registry_def)

lemma same_registry_root:
  assumes "same_registry w w'"
  shows "root w' c = root w c"
proof (induction c rule: less_induct)
  case (less c)
  have p: "parent (conts w' ! c) = parent (conts w ! c)"
    using assms by (simp add: same_registry_def)
  show ?case
  proof (cases "parent (conts w ! c)")
    case None
    then show ?thesis using p by (simp add: root.simps [of _ c])
  next
    case (Some q)
    then show ?thesis using p less [of q] by (simp add: root.simps [of _ c])
  qed
qed

lemma same_registry_chain:
  assumes "same_registry w w'"
  shows "scope_chain w' c = scope_chain w c"
proof (induction c rule: less_induct)
  case (less c)
  have p: "parent (conts w' ! c) = parent (conts w ! c)"
    using assms by (simp add: same_registry_def)
  show ?case
  proof (cases "parent (conts w ! c)")
    case None
    then show ?thesis using p by (simp add: scope_chain.simps [of _ c])
  next
    case (Some q)
    then show ?thesis using p less [of q] by (simp add: scope_chain.simps [of _ c])
  qed
qed

lemma same_registry_scan:
  assumes "same_registry w w'"
  shows "scan_aliases w' this i tags = scan_aliases w this i tags"
  using assms same_registry_chain [OF assms, of this]
  by (simp add: scan_aliases_def same_registry_def)

lemma same_registry_loop:
  assumes "same_registry w w'"
  shows "resolveAliases_loop w' this i tags = resolveAliases_loop w this i tags"
  using assms
proof (induction w this i tags rule: resolveAliases_loop.induct)
  case (1 w this i tags)
  have a: "resolveAliases_loop w' this i tags =
      (if i < length tags
       then resolveAliases_loop w' this (Suc i) (scan_aliases w' this i tags) else tags)"
    by (rule resolveAliases_loop.simps)
  have b: "resolveAliases_loop w this i tags =
      (if i < length tags
       then resolveAliases_loop w this (Suc i) (scan_aliases w this i tags) else tags)"
    by (rule resolveAliases_loop.simps)
  have c: "scan_aliases w' this i tags = scan_aliases w this i tags"
    using "1.prems" by (rule same_registry_scan)
  show ?case
  proof (cases "i < length tags")
    case True
    from "1.IH" [OF True "1.prems"] show ?thesis
      by (simp only: a b c True if_True)
  next
    case False
    then show ?thesis by (simp only: a b if_False)
  qed
qed

lemma same_registry_search:
  assumes "same_registry w w'"
  shows "search w' tags cs = search w tags cs"
  using assms by (induction cs) (simp_all add: same_registry_def cong: option.case_cong)

lemma same_registry_lookup:
  assumes "same_registry w w'"
  shows "lookup w' this tag = lookup w this tag"
  by (simp only: lookup_def resolveAliases_def same_registry_loop [OF assms]
      same_registry_search [OF assms] same_registry_chain [OF assms])

lemma frame_refl: "frame c w w"
  by (simp add: frame_def same_registry_refl)

lemma frame_trans:
  assumes "frame c w w1" "frame c w1 w2"
  shows "frame c w w2"
proof -
  have r: "root w1 c = root w c"
    using assms(1) by (simp add: frame_def same_registry_root)
  show ?thesis
    using assms r same_registry_trans [of w w1 w2] by (auto simp: frame_def)
qed

lemma nth_upd_cont:
  "conts (upd_cont c g w) ! k =
     (if k = c \<and> c < length (conts w) then g (conts w ! c) else conts w ! k)"
  by (cases "c < length (conts w)") (auto simp: upd_cont_def list_update_beyond)

lemma upd_cont_fields:
  "heap (upd_cont c g w) = heap w" "nfact (upd_cont c g w) = nfact w"
  "calls (upd_cont c g w) = calls w" "length (conts (upd_cont c g w)) = length (conts w)"
  by (simp_all add: upd_cont_def)

lemma frame_heap_append: "frame c w (w\<lparr>heap := heap w @ xs\<rparr>)"
  by (simp add: frame_def same_registry_def)

lemma frame_heap_update: "frame c w (w\<lparr>heap := (heap w)[a := x]\<rparr>)"
  by (simp add: frame_def same_registry_def)

lemma frame_calls: "frame c w (w\<lparr>calls := calls w @ evs\<rparr>)"
  by (simp add: frame_def same_registry_def)

lemma frame_upd_cont:
  assumes "c' = this \<or> c' = root w this"
    and "\<And>k. parent (g k) = parent k \<and> aliases (g k) = aliases k \<and> factories (g k) = factories k"
  shows "frame this w (upd_cont c' g w)"
proof -
  have "same_registry w (upd_cont c' g w)"
    using assms(2) by (simp add: same_registry_def upd_cont_fields nth_upd_cont)
  moreover have "\<forall>k. k \<noteq> this \<and> k \<noteq> root w this \<longrightarrow> conts (upd_cont c' g w) ! k = conts w ! k"
    using assms(1) by (auto simp: nth_upd_cont)
  ultimately show ?thesis by (simp add: frame_def upd_cont_fields)
qed

lemma frame_store_cache: "frame this w (store_cache this (root w this) f v w)"
  by (simp add: store_cache_def frame_refl frame_upd_cont)

lemma frame_record_dtor: "frame this w (record_dtor this (root w this) f v w)"
  by (simp add: record_dtor_def frame_refl frame_upd_cont)

lemma frame_store_field: "frame c w (store_field a i fi w)"
  by (cases a) (simp_all add: frame_refl frame_heap_update)

lemma frame_Set_field: "Set_field target fld i fi w = Done u w' \<Longrightarrow> frame c w w'"
  by (auto simp: Set_field_def frame_store_field split: if_splits option.splits)

lemma frame_reflect_New: "frame c w (snd (reflect_New t w))"
  by (simp add: reflect_New_def frame_refl frame_heap_append)

lemma frame_okD: "frame_ok h \<Longrightarrow> h c rq w = Done r w' \<Longrightarrow> frame c w w'"
  by (auto simp: frame_ok_def)

lemma frame_exec:
  assumes "frame_ok h"
  shows "exec h p c w = Done r w' \<Longrightarrow> frame c w w'"
proof (induction p arbitrary: w)
  case (Return v e)
  then show ?case by (simp add: frame_refl)
next
  case (PanicP m)
  then show ?case by simp
next
  case (NewObj t k)
  from NewObj.prems have
    "exec h (k (fst (reflect_New t w))) c (snd (reflect_New t w)) = Done r w'"
    by simp
  then have "frame c (snd (reflect_New t w)) w'"
    by (rule NewObj.IH [OF rangeI])
  with frame_reflect_New show ?case by (rule frame_trans)
next
  case (Call rq k)
  show ?case
  proof (cases "h c rq w")
    case (Done x w1)
    then have f1: "frame c w w1" using assms by (auto simp: frame_ok_def)
    from Call.prems Done have "exec h (k x) c w1 = Done r w'" by simp
    then have "frame c w1 w'" by (rule Call.IH [OF rangeI])
    with f1 show ?thesis by (rule frame_trans)
  next
    case (Panic m)
    then show ?thesis using Call.prems by simp
  next
    case Diverge
    then show ?thesis using Call.prems by simp
  qed
qed

lemma frame_type_ctor:
  assumes "frame_ok h" "type_ctor h ty c w = Done r w'"
  shows "frame c w w'"
proof (cases ty)
  case None
  then show ?thesis using assms(2) by (simp add: type_ctor_def)
next
  case (Some t)
  let ?it = "if Kind t = Ptr then Elem t else t"
  let ?w1 = "snd (reflect_New ?it w)"
  have f1: "frame c w ?w1" by (rule frame_reflect_New)
  show ?thesis
  proof (cases "Kind ?it = Struct")
    case True
    show ?thesis
    proof (cases "h c (ReqInject (fst (reflect_New ?it w))) ?w1")
      case (Done x w2)
      then have "frame c ?w1 w2" using assms(1) by (rule frame_okD [rotated])
      with f1 have "frame c w w2" by (rule frame_trans)
      moreover have "w' = w2"
        using assms(2) Some True Done by (simp add: type_ctor_def Let_def split: if_splits)
      ultimately show ?thesis by simp
    next
      case (Panic m)
      then show ?thesis using assms(2) Some True by (simp add: type_ctor_def Let_def)
    next
      case Diverge
      then show ?thesis using assms(2) Some True by (simp add: type_ctor_def Let_def)
    qed
  next
    case False
    then have "w' = ?w1"
      using assms(2) Some by (simp add: type_ctor_def Let_def split: if_splits)
    then show ?thesis using f1 by simp
  qed
qed

lemma frame_call_ctor:
  assumes "frame_ok h" "call_ctor h f c w = Done r w'"
  shows "frame c w w'"
proof -
  let ?w0 = "w\<lparr>calls := calls w @ [CtorCalled (fid f) c]\<rparr>"
  have f0: "frame c w ?w0" by (rule frame_calls)
  have "frame c ?w0 w'"
  proof (cases "Constructor f")
    case (TypeCtor ty)
    then have "type_ctor h ty c ?w0 = Done r w'"
      using assms(2) by (simp add: call_ctor_def Let_def)
    with assms(1) show ?thesis by (rule frame_type_ctor)
  next
    case (ValueCtor v)
    then have "w' = ?w0" using assms(2) by (simp add: call_ctor_def Let_def)
    then show ?thesis by (simp add: frame_refl)
  next
    case (FuncCtor po)
    show ?thesis
    proof (cases po)
      case None
      then show ?thesis using assms(2) FuncCtor by (simp add: call_ctor_def Let_def)
    next
      case (Some p)
      then have "exec h p c ?w0 = Done r w'"
        using assms(2) FuncCtor by (simp add: call_ctor_def Let_def)
      with assms(1) show ?thesis by (rule frame_exec)
    qed
  qed
  with f0 show ?thesis by (rule frame_trans)
qed

text \<open>The three ways \<open>createInstance\<close> returns.\<close>

lemma createInstance_miss:
  assumes "cached this (root w this) f w = None"
  shows "createInstance h this f w =
     bind (call_ctor h f this w)
       (\<lambda>(instance, err) w1.
          case err of
            Some e \<Rightarrow> Done (instance, Some e) w1
          | None \<Rightarrow>
              Done (instance, None)
                (record_dtor this (root w this) f instance
                   (store_cache this (root w this) f instance w1)))"
  using assms by (simp add: createInstance_def Let_def)

lemma createInstance_hit:
  assumes "cached this (root w this) f w = Some v"
  shows "createInstance h this f w = Done (v, None) w"
  using assms by (simp add: createInstance_def Let_def)

lemma createInstance_cases:
  assumes "createInstance h this f w = Done (v, err) w'"
  obtains (hit) "cached this (root w this) f w = Some v" "err = None" "w' = w"
  | (failed) e where "cached this (root w this) f w = None" "err = Some e"
      "call_ctor h f this w = Done (v, Some e) w'"
  | (made) w1 where "cached this (root w this) f w = None" "err = None"
      "call_ctor h f this w = Done (v, None) w1"
      "w' = record_dtor this (root w this) f v (store_cache this (root w this) f v w1)"
proof (cases "cached this (root w this) f w")
  case (Some x)
  with assms have "x = v" "err = None" "w' = w" by (auto simp: createInstance_hit)
  with Some show ?thesis by (intro hit) simp_all
next
  case None
  note miss = createInstance_miss [OF None, of h]
  show ?thesis
  proof (cases "call_ctor h f this w")
    case (Done r w1)
    obtain x e where r: "r = (x, e)" by (cases r)
    show ?thesis
    proof (cases e)
      case None
      with assms miss Done r have "x = v" "err = None"
        "w' = record_dtor this (root w this) f v (store_cache this (root w this) f v w1)"
        by auto
      with \<open>cached this (root w this) f w = None\<close> Done r None show ?thesis
        by (intro made [of w1]) simp_all
    next
      case (Some e')
      with assms miss Done r have "x = v" "err = Some e'" "w' = w1" by auto
      with \<open>cached this (root w this) f w = None\<close> Done r Some show ?thesis
        by (intro failed [of e']) simp_all
    qed
  next
    case (Panic m)
    then show ?thesis using assms miss by simp
  next
    case Diverge
    then show ?thesis using assms miss by simp
  qed
qed

lemma frame_createInstance:
  assumes "frame_ok h" "createInstance h this f w = Done r w'"
  shows "frame this w w'"
proof -
  obtain v err where r: "r = (v, err)" by (cases r)
  from assms(2) [unfolded r] show ?thesis
  proof (cases rule: createInstance_cases)
    case hit
    then show ?thesis by (simp add: frame_refl)
  next
    case (failed e)
    with assms(1) show ?thesis by (auto intro: frame_call_ctor)
  next
    case (made w1)
    have f1: "frame this w w1" using assms(1) made(3) by (rule frame_call_ctor)
    then have rt: "root w1 this = root w this"
      by (simp add: frame_def same_registry_root)
    let ?w2 = "store_cache this (root w this) f v w1"
    have f2: "frame this w1 ?w2" using frame_store_cache [of this w1 f v] rt by simp
    then have rt2: "root ?w2 this = root w this"
      using rt same_registry_root [of w1 ?w2 this] by (simp add: frame_def)
    have f3: "frame this ?w2 w'"
      using frame_record_dtor [of this ?w2 f v] rt2 made(4) by simp
    from f1 f2 f3 show ?thesis by (blast intro: frame_trans)
  qed
qed

lemma frame_Resolve:
  assumes "frame_ok h" "Resolve h this tag w = Done r w'"
  shows "frame this w w'"
  using assms
  by (auto simp: Resolve_def frame_refl split: option.splits intro: frame_createInstance)

lemma frame_create_loop:
  assumes "frame_ok h"
  shows "create_loop h this fs i acc w = Done r w' \<Longrightarrow> frame this w w'"
proof (induction i arbitrary: acc w)
  case 0
  then show ?case by (simp add: frame_refl)
next
  case (Suc i)
  show ?case
  proof (cases "createInstance h this (fs ! i) w")
    case (Done x w1)
    obtain v err where x: "x = (v, err)" by (cases x)
    have f1: "frame this w w1" using assms Done by (rule frame_createInstance)
    show ?thesis
    proof (cases err)
      case None
      with Suc.prems Done x
      have "create_loop h this fs i (acc @ [v]) w1 = Done r w'" by simp
      then have "frame this w1 w'" by (rule Suc.IH)
      with f1 show ?thesis by (rule frame_trans)
    next
      case (Some e)
      with Suc.prems Done x have "w' = w1" by simp
      with f1 show ?thesis by simp
    qed
  next
    case (Panic m)
    then show ?thesis using Suc.prems by simp
  next
    case Diverge
    then show ?thesis using Suc.prems by simp
  qed
qed

lemma frame_ResolveAll:
  assumes "frame_ok h" "ResolveAll h this tag w = Done r w'"
  shows "frame this w w'"
  using assms(2) frame_create_loop [OF assms(1)]
  by (simp add: ResolveAll_def Let_def)

lemma frame_inject_fields:
  assumes "frame_ok h"
  shows "inject_fields h this target fs i w = Done r w' \<Longrightarrow> frame this w w'"
proof (induction fs arbitrary: i w)
  case Nil
  then show ?case by (simp add: frame_refl)
next
  case (Cons f fs)
  show ?case
  proof (cases "ditag f = []")
    case True
    then show ?thesis using Cons by simp
  next
    case False
    show ?thesis
    proof (cases "Resolve h this (ditag f) w")
      case (Done x w1)
      obtain fi err where x: "x = (fi, err)" by (cases x)
      have f1: "frame this w w1" using assms Done by (rule frame_Resolve)
      show ?thesis
      proof (cases err)
        case None
        show ?thesis
        proof (cases "Set_field target f i fi w1")
          case (Done u w2)
          then have f2: "frame this w1 w2" by (rule frame_Set_field)
          from Cons.prems False \<open>Resolve h this (ditag f) w = Done x w1\<close> x None Done
          have "inject_fields h this target fs (Suc i) w2 = Done r w'" by simp
          then have "frame this w2 w'" by (rule Cons.IH)
          with f1 f2 show ?thesis by (blast intro: frame_trans)
        next
          case (Panic m)
          with Cons.prems False \<open>Resolve h this (ditag f) w = Done x w1\<close> x None
          show ?thesis by simp
        next
          case Diverge
          with Cons.prems False \<open>Resolve h this (ditag f) w = Done x w1\<close> x None
          show ?thesis by simp
        qed
      next
        case (Some e)
        with Cons.prems False Done x have "w' = w1" by simp
        with f1 show ?thesis by simp
      qed
    next
      case (Panic m)
      then show ?thesis using Cons.prems False by simp
    next
      case Diverge
      then show ?thesis using Cons.prems False by simp
    qed
  qed
qed

lemma frame_Inject:
  assumes "frame_ok h" "Inject h this v w = Done r w'"
  shows "frame this w w'"
proof -
  from Inject_fields_of [OF assms(2)] obtain target
    where "inject_fields h this target (fields_of v) 0 w = Done r w'" ..
  then show ?thesis by (rule frame_inject_fields [OF assms(1)])
qed

lemma frame_ok_handler: "frame_ok (handler n)"
proof (induction n)
  case 0
  show ?case by (simp add: frame_ok_def)
next
  case (Suc n)
  have "frame c w w'" if "handler (Suc n) c rq w = Done r w'" for c rq w r w'
  proof (cases rq)
    case (ReqResolve tag)
    with that obtain x where "Resolve (handler n) c tag w = Done x w'"
      by (cases "Resolve (handler n) c tag w") (auto split: prod.splits)
    with Suc show ?thesis by (rule frame_Resolve)
  next
    case (ReqResolveAll tag)
    with that obtain x where "ResolveAll (handler n) c tag w = Done x w'"
      by (cases "ResolveAll (handler n) c tag w") (auto split: prod.splits)
    with Suc show ?thesis by (rule frame_ResolveAll)
  next
    case (ReqInject v)
    with that obtain x where "Inject (handler n) c v w = Done x w'"
      by (cases "Inject (handler n) c v w") auto
    with Suc show ?thesis by (rule frame_Inject)
  qed
  then show ?case unfolding frame_ok_def by blast
qed

lemma root_le: "root w c \<le> c"
proof (induction c rule: less_induct)
  case (less c)
  show ?case
  proof (cases "parent (conts w ! c)")
    case None
    then show ?thesis by (simp add: root.simps [of w c])
  next
    case (Some p)
    then show ?thesis using less [of p] by (auto simp: root.simps [of w c])
  qed
qed

lemma frame_length: "frame c w w' \<Longrightarrow> length (conts w') = length (conts w)"
  by (simp add: frame_def same_registry_def)

lemma frame_root: "frame c w w' \<Longrightarrow> root w' k = root w k"
  by (simp add: frame_def same_registry_root)

lemma frame_lookup: "frame c w w' \<Longrightarrow> lookup w' k tag = lookup w k tag"
  by (simp add: frame_def same_registry_lookup)

lemma wf_store_same_registry: "same_registry w w' \<Longrightarrow> wf_store w \<Longrightarrow> wf_store w'"
  by (simp add: same_registry_def wf_store_def)

lemma wf_store_frame: "frame c w w' \<Longrightarrow> wf_store w \<Longrightarrow> wf_store w'"
  by (auto simp: frame_def intro: wf_store_same_registry)

lemma frame_ancestors: "frame c w w' \<Longrightarrow> ancestors w' k = ancestors w k"
  by (simp add: frame_def same_registry_def ancestors_def parent_rel_def)

lemma cache_store_cache:
  "cache (conts (store_cache this rt f v w) ! k) =
     (if (Lifetime f = Scoped \<and> k = this \<or> Lifetime f = Singleton \<and> k = rt)
         \<and> k < length (conts w)
      then (cache (conts w ! k))(fid f \<mapsto> v) else cache (conts w ! k))"
  by (simp add: store_cache_def nth_upd_cont)

lemma destructors_store_cache:
  "destructors (conts (store_cache this rt f v w) ! k) = destructors (conts w ! k)"
  by (simp add: store_cache_def nth_upd_cont)

lemma length_store_cache: "length (conts (store_cache this rt f v w)) = length (conts w)"
  by (simp add: store_cache_def upd_cont_fields)

lemma cache_record_dtor:
  "cache (conts (record_dtor this rt f v w) ! k) = cache (conts w ! k)"
  by (simp add: record_dtor_def nth_upd_cont)

lemma destructors_record_dtor:
  "destructors (conts (record_dtor this rt f v w) ! k) =
     (if Destructor f \<noteq> None
         \<and> ((Lifetime f = Transient \<or> Lifetime f = Scoped) \<and> k = this
            \<or> Lifetime f = Singleton \<and> k = rt)
         \<and> k < length (conts w)
      then destructors (conts w ! k) @ [\<lparr>cl_factory = f, cl_instance = v\<rparr>]
      else destructors (conts w ! k))"
  by (simp add: record_dtor_def nth_upd_cont)

lemma length_record_dtor: "length (conts (record_dtor this rt f v w)) = length (conts w)"
  by (simp add: record_dtor_def upd_cont_fields)

lemma heap_store_cache: "heap (store_cache this rt f v w) = heap w"
  by (simp add: store_cache_def upd_cont_fields)

lemma heap_record_dtor: "heap (record_dtor this rt f v w) = heap w"
  by (simp add: record_dtor_def upd_cont_fields)

lemma call_ctor_calls:
  assumes "frame_ok h" "call_ctor h f c w = Done r w1"
  shows "\<exists>evs. calls w1 = calls w @ CtorCalled (fid f) c # evs"
proof -
  let ?w0 = "w\<lparr>calls := calls w @ [CtorCalled (fid f) c]\<rparr>"
  have "frame c ?w0 w1"
  proof (cases "Constructor f")
    case (TypeCtor ty)
    then have "type_ctor h ty c ?w0 = Done r w1"
      using assms(2) by (simp add: call_ctor_def Let_def)
    with assms(1) show ?thesis by (rule frame_type_ctor)
  next
    case (ValueCtor v)
    then have "w1 = ?w0" using assms(2) by (simp add: call_ctor_def Let_def)
    then show ?thesis by (simp add: frame_refl)
  next
    case (FuncCtor po)
    show ?thesis
    proof (cases po)
      case None
      then show ?thesis using assms(2) FuncCtor by (simp add: call_ctor_def Let_def)
    next
      case (Some p)
      then have "exec h p c ?w0 = Done r w1"
        using assms(2) FuncCtor by (simp add: call_ctor_def Let_def)
      with assms(1) show ?thesis by (rule frame_exec)
    qed
  qed
  then obtain evs where "calls w1 = calls ?w0 @ evs" by (auto simp: frame_def)
  then show ?thesis by simp
qed

lemma type_ctor_pointer:
  assumes "frame_ok h" "type_ctor h (Some (TPtr t)) c w = Done (v, e) w1"
  shows "e = None \<and> v = fst (reflect_New t w) \<and> frame c (snd (reflect_New t w)) w1"
proof (cases "Kind t = Struct")
  case True
  show ?thesis
  proof (cases "h c (ReqInject (fst (reflect_New t w))) (snd (reflect_New t w))")
    case (Done x w2)
    with assms(1) have "frame c (snd (reflect_New t w)) w2" by (rule frame_okD)
    then show ?thesis
      using assms(2) True Done by (auto simp: type_ctor_def Let_def)
  next
    case (Panic m)
    then show ?thesis using assms(2) True by (simp add: type_ctor_def Let_def)
  next
    case Diverge
    then show ?thesis using assms(2) True by (simp add: type_ctor_def Let_def)
  qed
next
  case False
  then show ?thesis
    using assms(2) by (auto simp: type_ctor_def Let_def frame_refl)
qed

lemma call_ctor_pointer:
  assumes "frame_ok h" "Constructor f = TypeCtor (Some (TPtr t))"
    "call_ctor h f c w = Done (v, e) w1"
  shows "e = None"
    and "zero_size t \<Longrightarrow> v = PtrV t (Some Zerobase)"
    and "\<not> zero_size t \<Longrightarrow>
           v = PtrV t (Some (Obj (length (heap w)))) \<and> length (heap w) < length (heap w1)"
proof -
  let ?w0 = "w\<lparr>calls := calls w @ [CtorCalled (fid f) c]\<rparr>"
  have "type_ctor h (Some (TPtr t)) c ?w0 = Done (v, e) w1"
    using assms(2,3) by (simp add: call_ctor_def Let_def)
  from type_ctor_pointer [OF assms(1) this]
  have t: "e = None" "v = fst (reflect_New t ?w0)" "frame c (snd (reflect_New t ?w0)) w1"
    by simp_all
  show "e = None" by (rule t(1))
  show "v = PtrV t (Some Zerobase)" if "zero_size t"
    using that t(2) by (simp add: reflect_New_def)
  show "v = PtrV t (Some (Obj (length (heap w)))) \<and> length (heap w) < length (heap w1)"
    if "\<not> zero_size t"
  proof -
    from t(3) have "length (heap (snd (reflect_New t ?w0))) \<le> length (heap w1)"
      by (simp add: frame_def)
    with that t(2) show ?thesis by (simp add: reflect_New_def)
  qed
qed

lemma createInstance_pointer:
  assumes "Constructor f = TypeCtor (Some (TPtr t))"
    "cached c (root w c) f w = None"
    "createInstance (handler n) c f w = Done (v, e) w'"
  shows "zero_size t \<Longrightarrow> v = PtrV t (Some Zerobase)"
    and "\<not> zero_size t \<Longrightarrow>
           v = PtrV t (Some (Obj (length (heap w)))) \<and> length (heap w) < length (heap w')"
proof -
  from assms(3) obtain w1 where w1: "call_ctor (handler n) f c w = Done (v, e) w1"
    "heap w' = heap w1"
  proof (cases rule: createInstance_cases)
    case hit
    then show ?thesis using assms(2) by simp
  next
    case (failed e')
    then show ?thesis by (intro that [of w']) simp_all
  next
    case (made w1)
    then show ?thesis by (intro that [of w1]) (simp_all add: heap_record_dtor heap_store_cache)
  qed
  note p = call_ctor_pointer [OF frame_ok_handler assms(1) w1(1)]
  show "v = PtrV t (Some Zerobase)" if "zero_size t" using that by (rule p(2))
  show "v = PtrV t (Some (Obj (length (heap w)))) \<and> length (heap w) < length (heap w')"
    if "\<not> zero_size t"
    using p(3) [OF that] w1(2) by simp
qed

lemma exec_no_calls:
  "no_calls p \<Longrightarrow> exec h p c w = Done r w' \<Longrightarrow> conts w' = conts w"
proof (induction p arbitrary: w)
  case (NewObj t k)
  from NewObj.prems have
    "exec h (k (fst (reflect_New t w))) c (snd (reflect_New t w)) = Done r w'"
    and "no_calls (k (fst (reflect_New t w)))"
    by simp_all
  from NewObj.IH [OF rangeI this(2) this(1)] show ?case by (simp add: reflect_New_def)
qed simp_all

section \<open>Properties of the lifetimes\<close>

text \<open>Facts about the example with two registries.\<close>

lemma ancestors_parent: "parent (conts w ! c) = Some p \<Longrightarrow> p \<in> ancestors w c"
  by (simp add: ancestors_unfold [of w c] ancestors_self)

lemma scopes_world_shape:
  "wf_store (scopes_world f)"
  "length (conts (scopes_world f)) = 4"
  "parent (conts (scopes_world f) ! 1) = None"
  "1 \<in> ancestors (scopes_world f) 2"
  "1 \<in> ancestors (scopes_world f) 3"
proof -
  show "wf_store (scopes_world f)"
    by (auto simp: wf_store_def scopes_world_def scope_def nth_Cons split: nat.splits)
  show "length (conts (scopes_world f)) = 4" by (simp add: scopes_world_def)
  show "parent (conts (scopes_world f) ! 1) = None" by (simp add: scopes_world_def)
  show "1 \<in> ancestors (scopes_world f) 2"
    by (rule ancestors_parent) (simp add: scopes_world_def scope_def)
  show "1 \<in> ancestors (scopes_world f) 3"
    by (rule ancestors_parent) (simp add: scopes_world_def scope_def)
qed

text \<open>
  Claim C6, as amended. When a record with a destructor is resolved on a container whose
  root (its ancestor with no parent) is \<open>r\<close>: on a cache hit the state is left as it
  was, so nothing is recorded; on a miss the constructor is called (its call is in the
  trace), and when it returns an instance and no error the closure binding the record to
  that instance is appended to the pending-destructor list of the calling container for
  a Transient or Scoped record, of the root for a Singleton record, and to no other list;
  when the constructor returns an error, or the record's \<^verbatim>\<open>Lifetime\<close> is none of
  the three constants, nothing is recorded: the state is the one the constructor left.
\<close>

theorem createInstance_records_destructor:
  assumes "Destructor f = Some d" and "wf_store w" and "this < length (conts w)"
    and "r \<in> ancestors w this" and "parent (conts w ! r) = None"
    and "createInstance (handler n) this f w = Done (v, err) w'"
  shows "(cached this r f w \<noteq> None \<longrightarrow> err = None \<and> w' = w)
       \<and> (cached this r f w = None \<longrightarrow>
            (\<exists>w1 evs. call_ctor (handler n) f this w = Done (v, err) w1
               \<and> calls w1 = calls w @ CtorCalled (fid f) this # evs
               \<and> (err = None \<and> (Lifetime f = Transient \<or> Lifetime f = Scoped) \<longrightarrow>
                     destructors (conts w' ! this) =
                       destructors (conts w1 ! this) @ [\<lparr>cl_factory = f, cl_instance = v\<rparr>]
                     \<and> (\<forall>c. c \<noteq> this \<longrightarrow>
                           destructors (conts w' ! c) = destructors (conts w1 ! c)))
               \<and> (err = None \<and> Lifetime f = Singleton \<longrightarrow>
                     destructors (conts w' ! r) =
                       destructors (conts w1 ! r) @ [\<lparr>cl_factory = f, cl_instance = v\<rparr>]
                     \<and> (\<forall>c. c \<noteq> r \<longrightarrow>
                           destructors (conts w' ! c) = destructors (conts w1 ! c)))
               \<and> (err = None \<and> Lifetime f \<noteq> Transient \<and> Lifetime f \<noteq> Scoped
                     \<and> Lifetime f \<noteq> Singleton \<longrightarrow> w' = w1)
               \<and> (err \<noteq> None \<longrightarrow> w' = w1)))"
proof -
  have r: "r = root w this" using assms(2,3,4,5) by (rule root_unique)
  from assms(6) show ?thesis
  proof (cases rule: createInstance_cases)
    case hit
    then show ?thesis by (simp add: r)
  next
    case (failed e)
    from call_ctor_calls [OF frame_ok_handler failed(3)] obtain evs
      where "calls w' = calls w @ CtorCalled (fid f) this # evs" ..
    with failed show ?thesis by (auto simp: r)
  next
    case (made w1)
    have f1: "frame this w w1" using frame_ok_handler made(3) by (rule frame_call_ctor)
    from call_ctor_calls [OF frame_ok_handler made(3)] obtain evs
      where evs: "calls w1 = calls w @ CtorCalled (fid f) this # evs" ..
    have len: "length (conts w1) = length (conts w)" using f1 by (rule frame_length)
    have rt: "root w this < length (conts w)"
      using assms(3) root_le [of w this] by simp
    note ds = made(4) destructors_record_dtor destructors_store_cache length_store_cache
    have d1: "destructors (conts w' ! this) =
        destructors (conts w1 ! this) @ [\<lparr>cl_factory = f, cl_instance = v\<rparr>]"
      if "Lifetime f = Transient \<or> Lifetime f = Scoped"
      using that assms(1,3) len by (auto simp: ds)
    have d2: "destructors (conts w' ! c) = destructors (conts w1 ! c)"
      if "Lifetime f = Transient \<or> Lifetime f = Scoped" "c \<noteq> this" for c
      using that by (auto simp: ds)
    have d3: "destructors (conts w' ! r) =
        destructors (conts w1 ! r) @ [\<lparr>cl_factory = f, cl_instance = v\<rparr>]"
      if "Lifetime f = Singleton"
      using that assms(1) rt len by (simp add: ds r)
    have d4: "destructors (conts w' ! c) = destructors (conts w1 ! c)"
      if "Lifetime f = Singleton" "c \<noteq> r" for c
      using that by (simp add: ds r)
    have d5: "w' = w1"
      if "Lifetime f \<noteq> Transient \<and> Lifetime f \<noteq> Scoped \<and> Lifetime f \<noteq> Singleton"
      using that by (simp add: made(4) record_dtor_def store_cache_def)
    have c: "cached this r f w = None" using made(1) by (simp add: r)
    have "\<exists>w1 evs. call_ctor (handler n) f this w = Done (v, err) w1
               \<and> calls w1 = calls w @ CtorCalled (fid f) this # evs
               \<and> (err = None \<and> (Lifetime f = Transient \<or> Lifetime f = Scoped) \<longrightarrow>
                     destructors (conts w' ! this) =
                       destructors (conts w1 ! this) @ [\<lparr>cl_factory = f, cl_instance = v\<rparr>]
                     \<and> (\<forall>c. c \<noteq> this \<longrightarrow>
                           destructors (conts w' ! c) = destructors (conts w1 ! c)))
               \<and> (err = None \<and> Lifetime f = Singleton \<longrightarrow>
                     destructors (conts w' ! r) =
                       destructors (conts w1 ! r) @ [\<lparr>cl_factory = f, cl_instance = v\<rparr>]
                     \<and> (\<forall>c. c \<noteq> r \<longrightarrow>
                           destructors (conts w' ! c) = destructors (conts w1 ! c)))
               \<and> (err = None \<and> Lifetime f \<noteq> Transient \<and> Lifetime f \<noteq> Scoped
                     \<and> Lifetime f \<noteq> Singleton \<longrightarrow> w' = w1)
               \<and> (err \<noteq> None \<longrightarrow> w' = w1)"
    proof (intro exI conjI impI allI)
      show "call_ctor (handler n) f this w = Done (v, err) w1" using made(2,3) by simp
      show "calls w1 = calls w @ CtorCalled (fid f) this # evs" by (rule evs)
      show "destructors (conts w' ! this) =
          destructors (conts w1 ! this) @ [\<lparr>cl_factory = f, cl_instance = v\<rparr>]"
        if "err = None \<and> (Lifetime f = Transient \<or> Lifetime f = Scoped)"
        using that by (intro d1) simp
      show "destructors (conts w' ! c) = destructors (conts w1 ! c)"
        if "err = None \<and> (Lifetime f = Transient \<or> Lifetime f = Scoped)" "c \<noteq> this" for c
        using that by (intro d2) simp_all
      show "destructors (conts w' ! r) =
          destructors (conts w1 ! r) @ [\<lparr>cl_factory = f, cl_instance = v\<rparr>]"
        if "err = None \<and> Lifetime f = Singleton"
        using that by (intro d3) simp
      show "destructors (conts w' ! c) = destructors (conts w1 ! c)"
        if "err = None \<and> Lifetime f = Singleton" "c \<noteq> r" for c
        using that by (intro d4) simp_all
      show "w' = w1"
        if "err = None \<and> Lifetime f \<noteq> Transient \<and> Lifetime f \<noteq> Scoped
              \<and> Lifetime f \<noteq> Singleton"
        using that by (intro d5) simp
      show "w' = w1" if "err \<noteq> None" using that made(2) by simp
    qed
    with c show ?thesis by simp
  qed
qed

text \<open>
  The claim without the amendment fails: the constructor of a record with a destructor
  is called and returns an error, and no closure is pending anywhere.
\<close>

theorem constructor_error_records_nothing_counterexample:
  "Resolve (handler 0) 2 ''conn'' (scopes_world failing_factory) =
     Done (NilV, Some (UserError ''refused''))
       ((scopes_world failing_factory)\<lparr>calls := [CtorCalled 0 2]\<rparr>)
   \<and> map destructors (conts ((scopes_world failing_factory)\<lparr>calls := [CtorCalled 0 2]\<rparr>)) =
       [[], [], [], []]"
  by (simp add: scopes_world_def failing_factory_def scope_def resolution_defs)

text \<open>
  So it does for a record registered with a \<^verbatim>\<open>Lifetime\<close> that is none of the three
  constants (\<^verbatim>\<open>UseFactory("conn", ctor, dtor, Lifetime(7))\<close>): the constructor is
  called and returns an instance, and no closure is pending anywhere.
\<close>

lemma unknown_lifetime_records_nothing:
  "Resolve (handler 0) 2 ''conn'' (scopes_world odd_factory) =
     Done (IntV 5, None) ((scopes_world odd_factory)\<lparr>calls := [CtorCalled 0 2]\<rparr>)
   \<and> map destructors (conts ((scopes_world odd_factory)\<lparr>calls := [CtorCalled 0 2]\<rparr>)) =
       [[], [], [], []]"
  by (simp add: scopes_world_def odd_factory_def scope_def resolution_defs
      Transient_def Scoped_def Singleton_def)

text \<open>
  The Singleton record resolved on the first scope: the closure is pending on the root,
  the container at address 1.
\<close>

lemma db_created:
  "createInstance (handler 0) 2 db_factory (scopes_world db_factory) =
     Done (PtrV DB (Some (Obj 0)), None) db_world"
  by (simp add: scopes_world_def db_world_def db_factory_def DB_def plain_field_def scope_def
      resolution_defs upd_cont_def)

theorem createInstance_records_destructor_witness:
  "createInstance (handler 0) 2 db_factory (scopes_world db_factory) =
     Done (PtrV DB (Some (Obj 0)), None) db_world
   \<and> destructors (conts db_world ! 1) =
       [\<lparr>cl_factory = db_factory, cl_instance = PtrV DB (Some (Obj 0))\<rparr>]
   \<and> destructors (conts db_world ! 0) = []
   \<and> destructors (conts db_world ! 2) = []
   \<and> 1 \<in> ancestors (scopes_world db_factory) 2
   \<and> parent (conts (scopes_world db_factory) ! 1) = None"
proof -
  have a: "Destructor db_factory = Some (\<lambda>v. None)" by (simp add: db_factory_def)
  have b: "2 < length (conts (scopes_world db_factory))" by (simp add: scopes_world_shape)
  have c: "cached 2 1 db_factory (scopes_world db_factory) = None"
    by (simp add: scopes_world_def scope_def db_factory_def cached_def)
  have l: "Lifetime db_factory = Singleton" by (simp add: db_factory_def)
  from createInstance_records_destructor
    [OF a scopes_world_shape(1) b scopes_world_shape(4) scopes_world_shape(3) db_created] c l
  obtain w1 where
    "call_ctor (handler 0) db_factory 2 (scopes_world db_factory) =
       Done (PtrV DB (Some (Obj 0)), None) w1"
    "destructors (conts db_world ! 1) =
       destructors (conts w1 ! 1)
         @ [\<lparr>cl_factory = db_factory, cl_instance = PtrV DB (Some (Obj 0))\<rparr>]"
    "\<forall>c. c \<noteq> 1 \<longrightarrow> destructors (conts db_world ! c) = destructors (conts w1 ! c)"
    by auto
  then show ?thesis
    using db_created scopes_world_shape(3,4) [of db_factory]
    by (simp add: db_world_def scope_def)
qed

text \<open>\<^verbatim>\<open>Resolve\<close> hands the record it finds to \<open>createInstance\<close>.\<close>

lemma Resolve_found:
  "lookup w this tag = Some f \<Longrightarrow> Resolve h this tag w = createInstance h this f w"
  by (simp add: Resolve_def)

text \<open>
  A Singleton record created on a container: where the instance is cached, and what the
  next creation returns.
\<close>

lemma createInstance_singleton:
  assumes "Lifetime f = Singleton" and "this < length (conts w)"
    and "createInstance (handler n) this f w = Done (v, None) w'"
  shows "cache (conts w' ! root w this) (fid f) = Some v"
    and "cache (conts w ! root w this) (fid f) = Some u \<Longrightarrow> v = u \<and> w' = w"
    and "root w c2 = root w this \<Longrightarrow> createInstance h2 c2 f w' = Done (v, None) w'"
    and "cache (conts w ! root w this) (fid f) = None \<Longrightarrow>
            \<exists>w1. call_ctor (handler n) f this w = Done (v, None) w1
               \<and> (\<forall>c. c \<noteq> root w this \<longrightarrow> cache (conts w' ! c) = cache (conts w1 ! c))"
proof -
  have fr: "frame this w w'"
    using frame_ok_handler assms(3) by (rule frame_createInstance)
  have c: "cached this (root w this) f w = cache (conts w ! root w this) (fid f)"
    by (simp add: cached_def assms(1))
  have rt: "root w this < length (conts w)"
    using assms(2) root_le [of w this] by simp
  from assms(3) have main:
    "cache (conts w' ! root w this) (fid f) = Some v
     \<and> (\<forall>u. cache (conts w ! root w this) (fid f) = Some u \<longrightarrow> v = u \<and> w' = w)
     \<and> (cache (conts w ! root w this) (fid f) = None \<longrightarrow>
            (\<exists>w1. call_ctor (handler n) f this w = Done (v, None) w1
               \<and> (\<forall>c. c \<noteq> root w this \<longrightarrow> cache (conts w' ! c) = cache (conts w1 ! c))))"
  proof (cases rule: createInstance_cases)
    case hit
    then show ?thesis using c by simp
  next
    case (failed e)
    then show ?thesis by simp
  next
    case (made w1)
    have "frame this w w1" using frame_ok_handler made(3) by (rule frame_call_ctor)
    then have len: "length (conts w1) = length (conts w)" by (rule frame_length)
    have s: "cache (conts w' ! root w this) (fid f) = Some v"
      using rt len assms(1) by (simp add: made(4) cache_record_dtor cache_store_cache)
    have o: "cache (conts w' ! k) = cache (conts w1 ! k)" if "k \<noteq> root w this" for k
      using that assms(1) by (simp add: made(4) cache_record_dtor cache_store_cache)
    from s o made(1,3) c show ?thesis by auto
  qed
  from main show s: "cache (conts w' ! root w this) (fid f) = Some v" by simp
  from main show "cache (conts w ! root w this) (fid f) = Some u \<Longrightarrow> v = u \<and> w' = w"
    by simp
  from main show "cache (conts w ! root w this) (fid f) = None \<Longrightarrow>
            \<exists>w1. call_ctor (handler n) f this w = Done (v, None) w1
               \<and> (\<forall>c. c \<noteq> root w this \<longrightarrow> cache (conts w' ! c) = cache (conts w1 ! c))"
    by simp
  show "createInstance h2 c2 f w' = Done (v, None) w'" if "root w c2 = root w this"
  proof -
    have "root w' c2 = root w this" using fr that by (simp add: frame_root)
    then have "cached c2 (root w' c2) f w' = Some v"
      using s by (simp add: cached_def assms(1))
    then show ?thesis by (rule createInstance_hit)
  qed
qed

text \<open>
  Claim C2. When \<^verbatim>\<open>Resolve\<close> of a tag on a container finds a Singleton record and
  returns an instance, the cache of the root, the ancestor \<open>r\<close> of the container that
  has no parent, holds that instance under the record's identity; an entry that was in
  the root's cache is what is returned, with nothing else done; from then on
  \<^verbatim>\<open>Resolve\<close> on any container of which \<open>r\<close> is an ancestor and that finds the
  record returns the same instance; and on a miss the entry is written to the root's
  cache only, the caches of all other containers being as the constructor left them.
\<close>

theorem Singleton_cached_on_root:
  assumes "Lifetime f = Singleton" and "wf_store w" and "this < length (conts w)"
    and "r \<in> ancestors w this" and "parent (conts w ! r) = None"
    and "lookup w this tag = Some f"
    and "Resolve (handler n) this tag w = Done (v, None) w'"
  shows "cache (conts w' ! r) (fid f) = Some v
       \<and> (\<forall>u. cache (conts w ! r) (fid f) = Some u \<longrightarrow> v = u \<and> w' = w)
       \<and> (\<forall>c2 tag2 h2. c2 < length (conts w) \<and> r \<in> ancestors w c2
             \<and> lookup w c2 tag2 = Some f
             \<longrightarrow> Resolve h2 c2 tag2 w' = Done (v, None) w')
       \<and> (cache (conts w ! r) (fid f) = None \<longrightarrow>
            (\<exists>w1. call_ctor (handler n) f this w = Done (v, None) w1
               \<and> (\<forall>c. c \<noteq> r \<longrightarrow> cache (conts w' ! c) = cache (conts w1 ! c))))"
proof (intro conjI allI impI)
  have r: "r = root w this" using assms(2,3,4,5) by (rule root_unique)
  have ci: "createInstance (handler n) this f w = Done (v, None) w'"
    using assms(6,7) by (simp add: Resolve_found)
  have fr: "frame this w w'"
    using frame_ok_handler ci by (rule frame_createInstance)
  note base = createInstance_singleton [OF assms(1,3) ci]
  show "cache (conts w' ! r) (fid f) = Some v" unfolding r by (rule base(1))
  show "v = u" "w' = w" if "cache (conts w ! r) (fid f) = Some u" for u
    using base(2) [of u] that by (simp_all add: r)
  show "Resolve h2 c2 tag2 w' = Done (v, None) w'"
    if h: "c2 < length (conts w) \<and> r \<in> ancestors w c2 \<and> lookup w c2 tag2 = Some f"
    for c2 tag2 h2
  proof -
    from h fr have "lookup w' c2 tag2 = Some f" by (simp add: frame_lookup)
    moreover have "r = root w c2" using assms(2) h assms(5) by (intro root_unique) simp_all
    then have "createInstance h2 c2 f w' = Done (v, None) w'"
      by (intro base(3)) (simp add: r)
    ultimately show ?thesis by (simp add: Resolve_found)
  qed
  show "\<exists>w1. call_ctor (handler n) f this w = Done (v, None) w1
               \<and> (\<forall>c. c \<noteq> r \<longrightarrow> cache (conts w' ! c) = cache (conts w1 ! c))"
    if "cache (conts w ! r) (fid f) = None"
    using base(4) that by (simp add: r)
qed

text \<open>
  Resolved on the first scope, the instance is in the cache of the root at address 1, not
  in the scope's nor in the other registry's, and the second scope gets the same
  instance.
\<close>

lemma db_found:
  "lookup (scopes_world db_factory) 2 ''db'' = Some db_factory
   \<and> lookup (scopes_world db_factory) 3 ''db'' = Some db_factory"
  by (simp add: scopes_world_def scope_def db_factory_def resolution_defs)

theorem Singleton_cached_on_root_witness:
  "Resolve (handler 0) 2 ''db'' (scopes_world db_factory) =
     Done (PtrV DB (Some (Obj 0)), None) db_world
   \<and> 1 \<in> ancestors (scopes_world db_factory) 2
   \<and> parent (conts (scopes_world db_factory) ! 1) = None
   \<and> cache (conts db_world ! 1) 0 = Some (PtrV DB (Some (Obj 0)))
   \<and> cache (conts db_world ! 0) 0 = None
   \<and> cache (conts db_world ! 2) 0 = None
   \<and> Resolve (handler 0) 3 ''db'' db_world = Done (PtrV DB (Some (Obj 0)), None) db_world"
proof -
  have a: "Lifetime db_factory = Singleton" by (simp add: db_factory_def)
  have b: "2 < length (conts (scopes_world db_factory))" by (simp add: scopes_world_shape)
  have c: "lookup (scopes_world db_factory) 2 ''db'' = Some db_factory"
    using db_found by simp
  have d: "Resolve (handler 0) 2 ''db'' (scopes_world db_factory) =
     Done (PtrV DB (Some (Obj 0)), None) db_world"
    using c db_created by (simp add: Resolve_found)
  have s: "3 < length (conts (scopes_world db_factory))
      \<and> 1 \<in> ancestors (scopes_world db_factory) 3
      \<and> lookup (scopes_world db_factory) 3 ''db'' = Some db_factory"
    using db_found scopes_world_shape(2,5) [of db_factory] by simp
  note concl = Singleton_cached_on_root
    [OF a scopes_world_shape(1) b scopes_world_shape(4) scopes_world_shape(3) c d]
  from concl have 1: "cache (conts db_world ! 1) (fid db_factory) =
      Some (PtrV DB (Some (Obj 0)))" by blast
  from concl s
  have 2: "Resolve (handler 0) 3 ''db'' db_world = Done (PtrV DB (Some (Obj 0)), None) db_world"
    by blast
  from 1 2 d scopes_world_shape(3,4) [of db_factory] show ?thesis
    by (simp add: db_world_def scope_def db_factory_def)
qed

text \<open>
  A Scoped record created on a container: where the instance is cached, what the next
  creation returns, what a container without an entry does.
\<close>

lemma createInstance_scoped:
  assumes "Lifetime f = Scoped" and "this < length (conts w)"
    and "createInstance (handler n) this f w = Done (v, None) w'"
  shows "cache (conts w' ! this) (fid f) = Some v"
    and "cache (conts w ! this) (fid f) = Some u \<Longrightarrow> v = u \<and> w' = w"
    and "createInstance h2 this f w' = Done (v, None) w'"
    and "c2 \<noteq> this \<Longrightarrow> c2 \<noteq> root w this \<Longrightarrow> conts w' ! c2 = conts w ! c2"
proof -
  have fr: "frame this w w'"
    using frame_ok_handler assms(3) by (rule frame_createInstance)
  have c: "cached k rt f s = cache (conts s ! k) (fid f)" for k rt s
    by (simp add: cached_def assms(1))
  from assms(3) have main:
    "cache (conts w' ! this) (fid f) = Some v
     \<and> (\<forall>u. cache (conts w ! this) (fid f) = Some u \<longrightarrow> v = u \<and> w' = w)"
  proof (cases rule: createInstance_cases)
    case hit
    then show ?thesis using c by simp
  next
    case (failed e)
    then show ?thesis by simp
  next
    case (made w1)
    have "frame this w w1" using frame_ok_handler made(3) by (rule frame_call_ctor)
    then have "length (conts w1) = length (conts w)" by (rule frame_length)
    then have "cache (conts w' ! this) (fid f) = Some v"
      using assms(1,2) by (simp add: made(4) cache_record_dtor cache_store_cache)
    with made(1) c show ?thesis by simp
  qed
  from main show s: "cache (conts w' ! this) (fid f) = Some v" by simp
  from main show "cache (conts w ! this) (fid f) = Some u \<Longrightarrow> v = u \<and> w' = w" by simp
  show "createInstance h2 this f w' = Done (v, None) w'"
    using s by (intro createInstance_hit) (simp add: c)
  show "conts w' ! c2 = conts w ! c2" if "c2 \<noteq> this" "c2 \<noteq> root w this"
    using fr that by (simp add: frame_def)
qed

lemma createInstance_scoped_miss:
  assumes "Lifetime f = Scoped" and "c2 < length (conts w')"
    and "cache (conts w' ! c2) (fid f) = None"
    and "createInstance (handler n) c2 f w' = Done (v2, None) w2"
  shows "\<exists>w1 evs. call_ctor (handler n) f c2 w' = Done (v2, None) w1
            \<and> calls w1 = calls w' @ CtorCalled (fid f) c2 # evs"
    and "cache (conts w2 ! c2) (fid f) = Some v2"
proof -
  have c: "cached c2 (root w' c2) f w' = None"
    using assms(1,3) by (simp add: cached_def)
  from assms(4) show "\<exists>w1 evs. call_ctor (handler n) f c2 w' = Done (v2, None) w1
            \<and> calls w1 = calls w' @ CtorCalled (fid f) c2 # evs"
  proof (cases rule: createInstance_cases)
    case hit
    then show ?thesis using c by simp
  next
    case (failed e)
    then show ?thesis by simp
  next
    case (made w1)
    from call_ctor_calls [OF frame_ok_handler made(3)] made(3) show ?thesis by blast
  qed
  show "cache (conts w2 ! c2) (fid f) = Some v2"
    by (rule createInstance_scoped(1) [OF assms(1,2,4)])
qed

lemma createInstance_scoped_pointer:
  assumes "Lifetime f = Scoped" and "Constructor f = TypeCtor (Some (TPtr t))"
    and "cache (conts w ! this) (fid f) = None"
    and "createInstance (handler n) this f w = Done (v, None) w'"
    and "cache (conts w' ! c2) (fid f) = None"
    and "createInstance (handler n) c2 f w' = Done (v2, None) w2"
  shows "zero_size t \<Longrightarrow> v2 = v" and "\<not> zero_size t \<Longrightarrow> v2 \<noteq> v"
proof -
  have c: "cached k rt f s = cache (conts s ! k) (fid f)" for k rt s
    by (simp add: cached_def assms(1))
  note p1 = createInstance_pointer [of f t this w n v None w']
  note p2 = createInstance_pointer [of f t c2 w' n v2 None w2]
  show "v2 = v" if "zero_size t"
    using that p1(1) p2(1) assms(2-6) by (simp add: c)
  show "v2 \<noteq> v" if "\<not> zero_size t"
  proof -
    have 1: "v = PtrV t (Some (Obj (length (heap w)))) \<and> length (heap w) < length (heap w')"
      using that p1(2) assms(2,3,4) by (simp add: c)
    have 2: "v2 = PtrV t (Some (Obj (length (heap w'))))"
      using that p2(2) assms(2,5,6) by (simp add: c)
    from 1 2 show ?thesis by simp
  qed
qed

text \<open>
  Claim C3, as amended. When \<^verbatim>\<open>Resolve\<close> of a tag on a container finds a Scoped
  record and returns an instance, that container's cache holds the instance under the
  record's identity (wherever the record is registered); an entry that was there is what
  is returned, with nothing else done; \<^verbatim>\<open>Resolve\<close> again on the same container
  returns the same instance; no container other than the calling one and its root \<open>r\<close>
  (its ancestor with no parent) is changed, so a sibling's cache is as it was; and
  \<^verbatim>\<open>Resolve\<close> on a container that finds the record and has no entry for it calls the
  constructor again (the call is in the trace), returns what that call produced and
  caches it there. What it produced is up to the constructor: the one \<^verbatim>\<open>UseType\<close>
  makes for a pointer type gives a different instance when the type pointed to has a size
  other than zero, and the same instance when its size is zero.
\<close>

theorem Scoped_cached_on_caller:
  assumes "Lifetime f = Scoped" and "wf_store w" and "this < length (conts w)"
    and "r \<in> ancestors w this" and "parent (conts w ! r) = None"
    and "lookup w this tag = Some f"
    and "Resolve (handler n) this tag w = Done (v, None) w'"
  shows "cache (conts w' ! this) (fid f) = Some v
       \<and> (\<forall>u. cache (conts w ! this) (fid f) = Some u \<longrightarrow> v = u \<and> w' = w)
       \<and> (\<forall>h2. Resolve h2 this tag w' = Done (v, None) w')
       \<and> (\<forall>c2. c2 \<noteq> this \<and> c2 \<noteq> r \<longrightarrow> conts w' ! c2 = conts w ! c2)
       \<and> (\<forall>c2 tag2 v2 w2. c2 < length (conts w) \<and> lookup w c2 tag2 = Some f
             \<and> cache (conts w' ! c2) (fid f) = None
             \<and> Resolve (handler n) c2 tag2 w' = Done (v2, None) w2 \<longrightarrow>
             (\<exists>w1 evs. call_ctor (handler n) f c2 w' = Done (v2, None) w1
                \<and> calls w1 = calls w' @ CtorCalled (fid f) c2 # evs)
             \<and> cache (conts w2 ! c2) (fid f) = Some v2
             \<and> (\<forall>t. Constructor f = TypeCtor (Some (TPtr t))
                    \<and> cache (conts w ! this) (fid f) = None \<longrightarrow>
                    (zero_size t \<longrightarrow> v2 = v) \<and> (\<not> zero_size t \<longrightarrow> v2 \<noteq> v)))"
proof (intro conjI allI impI)
  have r: "r = root w this" using assms(2,3,4,5) by (rule root_unique)
  have ci: "createInstance (handler n) this f w = Done (v, None) w'"
    using assms(6,7) by (simp add: Resolve_found)
  have fr: "frame this w w'"
    using frame_ok_handler ci by (rule frame_createInstance)
  note base = createInstance_scoped [OF assms(1,3) ci]
  show "cache (conts w' ! this) (fid f) = Some v" by (rule base(1))
  show "v = u" "w' = w" if "cache (conts w ! this) (fid f) = Some u" for u
    using base(2) [OF that] by simp_all
  show "Resolve h2 this tag w' = Done (v, None) w'" for h2
  proof -
    from fr assms(6) have "lookup w' this tag = Some f" by (simp add: frame_lookup)
    then show ?thesis using base(3) [of h2] by (simp add: Resolve_found)
  qed
  show "conts w' ! c2 = conts w ! c2" if "c2 \<noteq> this \<and> c2 \<noteq> r" for c2
    using that by (intro base(4)) (simp_all add: r)
  have sib: "createInstance (handler n) c2 f w' = Done (v2, None) w2 \<and> c2 < length (conts w')
      \<and> cache (conts w' ! c2) (fid f) = None"
    if "c2 < length (conts w) \<and> lookup w c2 tag2 = Some f
             \<and> cache (conts w' ! c2) (fid f) = None
             \<and> Resolve (handler n) c2 tag2 w' = Done (v2, None) w2" for c2 tag2 v2 w2
  proof -
    from that fr have "lookup w' c2 tag2 = Some f" by (simp add: frame_lookup)
    with that fr show ?thesis by (simp add: Resolve_found frame_length)
  qed
  show "\<exists>w1 evs. call_ctor (handler n) f c2 w' = Done (v2, None) w1
                \<and> calls w1 = calls w' @ CtorCalled (fid f) c2 # evs"
    if "c2 < length (conts w) \<and> lookup w c2 tag2 = Some f
             \<and> cache (conts w' ! c2) (fid f) = None
             \<and> Resolve (handler n) c2 tag2 w' = Done (v2, None) w2" for c2 tag2 v2 w2
    using sib [OF that] by (intro createInstance_scoped_miss(1) [OF assms(1)]) simp_all
  show "cache (conts w2 ! c2) (fid f) = Some v2"
    if "c2 < length (conts w) \<and> lookup w c2 tag2 = Some f
             \<and> cache (conts w' ! c2) (fid f) = None
             \<and> Resolve (handler n) c2 tag2 w' = Done (v2, None) w2" for c2 tag2 v2 w2
    using sib [OF that] by (intro createInstance_scoped_miss(2) [OF assms(1), of c2 w' n]) simp_all
  show "v2 = v"
    if "c2 < length (conts w) \<and> lookup w c2 tag2 = Some f
             \<and> cache (conts w' ! c2) (fid f) = None
             \<and> Resolve (handler n) c2 tag2 w' = Done (v2, None) w2"
      and "Constructor f = TypeCtor (Some (TPtr t)) \<and> cache (conts w ! this) (fid f) = None"
      and "zero_size t"
    for c2 tag2 v2 w2 t
    using sib [OF that(1)] that(2,3) ci
    by (intro createInstance_scoped_pointer(1) [OF assms(1), of t w this n v w' c2 v2 w2])
      simp_all
  show "v2 \<noteq> v"
    if "c2 < length (conts w) \<and> lookup w c2 tag2 = Some f
             \<and> cache (conts w' ! c2) (fid f) = None
             \<and> Resolve (handler n) c2 tag2 w' = Done (v2, None) w2"
      and "Constructor f = TypeCtor (Some (TPtr t)) \<and> cache (conts w ! this) (fid f) = None"
      and "\<not> zero_size t"
    for c2 tag2 v2 w2 t
    using sib [OF that(1)] that(2,3) ci
    by (intro createInstance_scoped_pointer(2) [OF assms(1), of t w this n v w' c2 v2 w2])
      simp_all
qed

text \<open>
  The claim without the amendment fails: a Scoped record whose constructor returns the
  shared pointer gives that pointer on one scope and the same pointer on its sibling, the
  constructor having run twice.
\<close>

theorem Scoped_sibling_same_instance_counterexample:
  "Resolve (handler 0) 2 ''cfg'' cfg_world = Done (PtrV Config (Some (Obj 0)), None) cfg_world1
   \<and> Resolve (handler 0) 3 ''cfg'' cfg_world1 =
       Done (PtrV Config (Some (Obj 0)), None) cfg_world2
   \<and> calls cfg_world2 = [CtorCalled 0 2, CtorCalled 0 3]"
  by (simp add: scopes_world_def cfg_world_def cfg_world1_def cfg_world2_def cfg_factory_def
      Config_def plain_field_def scope_def resolution_defs upd_cont_def)

text \<open>
  So it does with the constructor of the package itself:
  \<^verbatim>\<open>RegisterType(&myLogger{}, Scoped)\<close> makes a pointer to an object of size zero on
  each scope, and the two pointers are equal.
\<close>

lemma Scoped_sibling_zero_size:
  "RegisterType 0 (PtrV myLogger None) Scoped Registry =
     Done () (UseType 0 ''*di.myLogger'' (PtrV myLogger None) Scoped Registry)
   \<and> conts (UseType 0 ''*di.myLogger'' (PtrV myLogger None) Scoped Registry) ! 0 =
       conts (scopes_world mylogger_factory) ! 1
   \<and> Resolve (handler (Suc 0)) 2 ''*di.myLogger'' (scopes_world mylogger_factory) =
       Done (PtrV myLogger (Some Zerobase), None)
         (upd_cont 2 (\<lambda>k. k\<lparr>cache := [0 \<mapsto> PtrV myLogger (Some Zerobase)]\<rparr>)
            ((scopes_world mylogger_factory)\<lparr>calls := [CtorCalled 0 2]\<rparr>))
   \<and> Resolve (handler (Suc 0)) 3 ''*di.myLogger''
         (upd_cont 2 (\<lambda>k. k\<lparr>cache := [0 \<mapsto> PtrV myLogger (Some Zerobase)]\<rparr>)
            ((scopes_world mylogger_factory)\<lparr>calls := [CtorCalled 0 2]\<rparr>)) =
       Done (PtrV myLogger (Some Zerobase), None)
         (upd_cont 3 (\<lambda>k. k\<lparr>cache := [0 \<mapsto> PtrV myLogger (Some Zerobase)]\<rparr>)
            (upd_cont 2 (\<lambda>k. k\<lparr>cache := [0 \<mapsto> PtrV myLogger (Some Zerobase)]\<rparr>)
               ((scopes_world mylogger_factory)\<lparr>calls := [CtorCalled 0 2, CtorCalled 0 3]\<rparr>)))"
  by (simp add: scopes_world_def mylogger_factory_def myLogger_def scope_def RegisterType_def
      registration_defs resolution_defs)

text \<open>
  \<^verbatim>\<open>TestResolve_ScopedCache\<close>: the pointer resolved on the first scope is cached there
  and returned again; the second scope is untouched and gets a pointer to another object.
\<close>

lemma mystruct_created:
  "createInstance (handler (Suc 0)) 2 mystruct_factory (scopes_world mystruct_factory) =
     Done (PtrV MyStruct (Some (Obj 0)), None) mystruct_world1"
  by (simp add: scopes_world_def mystruct_world1_def mystruct_factory_def MyStruct_def
      plain_field_def scope_def resolution_defs upd_cont_def)

lemma mystruct_created_sibling:
  "createInstance (handler (Suc 0)) 3 mystruct_factory mystruct_world1 =
     Done (PtrV MyStruct (Some (Obj 1)), None) mystruct_world2"
  by (simp add: mystruct_world1_def mystruct_world2_def mystruct_factory_def MyStruct_def
      plain_field_def scope_def resolution_defs upd_cont_def)

lemma mystruct_found:
  "lookup (scopes_world mystruct_factory) 2 ''*di.MyStruct'' = Some mystruct_factory
   \<and> lookup (scopes_world mystruct_factory) 3 ''*di.MyStruct'' = Some mystruct_factory
   \<and> lookup mystruct_world1 3 ''*di.MyStruct'' = Some mystruct_factory"
  by (simp add: scopes_world_def mystruct_world1_def scope_def mystruct_factory_def
      resolution_defs)

theorem Scoped_cached_on_caller_witness:
  "Resolve (handler (Suc 0)) 2 ''*di.MyStruct'' (scopes_world mystruct_factory) =
     Done (PtrV MyStruct (Some (Obj 0)), None) mystruct_world1
   \<and> 1 \<in> ancestors (scopes_world mystruct_factory) 2
   \<and> parent (conts (scopes_world mystruct_factory) ! 1) = None
   \<and> cache (conts mystruct_world1 ! 2) 0 = Some (PtrV MyStruct (Some (Obj 0)))
   \<and> Resolve (handler (Suc 0)) 2 ''*di.MyStruct'' mystruct_world1 =
       Done (PtrV MyStruct (Some (Obj 0)), None) mystruct_world1
   \<and> conts mystruct_world1 ! 3 = conts (scopes_world mystruct_factory) ! 3
   \<and> Resolve (handler (Suc 0)) 3 ''*di.MyStruct'' mystruct_world1 =
       Done (PtrV MyStruct (Some (Obj 1)), None) mystruct_world2
   \<and> cache (conts mystruct_world2 ! 3) 0 = Some (PtrV MyStruct (Some (Obj 1)))
   \<and> \<not> zero_size MyStruct
   \<and> PtrV MyStruct (Some (Obj 1)) \<noteq> PtrV MyStruct (Some (Obj 0))"
proof -
  have a: "Lifetime mystruct_factory = Scoped" by (simp add: mystruct_factory_def)
  have b: "2 < length (conts (scopes_world mystruct_factory))" by (simp add: scopes_world_shape)
  have c: "lookup (scopes_world mystruct_factory) 2 ''*di.MyStruct'' = Some mystruct_factory"
    using mystruct_found by simp
  have d: "Resolve (handler (Suc 0)) 2 ''*di.MyStruct'' (scopes_world mystruct_factory) =
     Done (PtrV MyStruct (Some (Obj 0)), None) mystruct_world1"
    using c mystruct_created by (simp add: Resolve_found)
  have d2: "Resolve (handler (Suc 0)) 3 ''*di.MyStruct'' mystruct_world1 =
       Done (PtrV MyStruct (Some (Obj 1)), None) mystruct_world2"
    using mystruct_found mystruct_created_sibling by (simp add: Resolve_found)
  have r: "(3::nat) \<noteq> 2 \<and> (3::nat) \<noteq> 1" by simp
  have s: "3 < length (conts (scopes_world mystruct_factory))
      \<and> lookup (scopes_world mystruct_factory) 3 ''*di.MyStruct'' = Some mystruct_factory
      \<and> cache (conts mystruct_world1 ! 3) (fid mystruct_factory) = None
      \<and> Resolve (handler (Suc 0)) 3 ''*di.MyStruct'' mystruct_world1 =
          Done (PtrV MyStruct (Some (Obj 1)), None) mystruct_world2"
    using d2 mystruct_found
    by (simp add: scopes_world_def mystruct_world1_def scope_def)
  have t: "Constructor mystruct_factory = TypeCtor (Some (TPtr MyStruct))
      \<and> cache (conts (scopes_world mystruct_factory) ! 2) (fid mystruct_factory) = None"
    by (simp add: mystruct_factory_def scopes_world_def scope_def)
  have z: "\<not> zero_size MyStruct" by (simp add: MyStruct_def plain_field_def)
  note concl = Scoped_cached_on_caller
    [OF a scopes_world_shape(1) b scopes_world_shape(4) scopes_world_shape(3) c d]
  from concl have 1: "cache (conts mystruct_world1 ! 2) (fid mystruct_factory) =
      Some (PtrV MyStruct (Some (Obj 0)))" by blast
  from concl have 2: "Resolve (handler (Suc 0)) 2 ''*di.MyStruct'' mystruct_world1 =
       Done (PtrV MyStruct (Some (Obj 0)), None) mystruct_world1" by blast
  from concl r have 3: "conts mystruct_world1 ! 3 = conts (scopes_world mystruct_factory) ! 3"
    by blast
  from concl s have 4: "cache (conts mystruct_world2 ! 3) (fid mystruct_factory) =
      Some (PtrV MyStruct (Some (Obj 1)))" by blast
  from concl s t z have 5: "PtrV MyStruct (Some (Obj 1)) \<noteq> PtrV MyStruct (Some (Obj 0))"
    by blast
  from 1 2 3 4 5 z d d2 scopes_world_shape(3,4) [of mystruct_factory] show ?thesis
    by (simp add: mystruct_factory_def)
qed

text \<open>
  Claim C10, as amended. When the constructor of the record that \<^verbatim>\<open>Resolve\<close> finds
  returns an error, \<^verbatim>\<open>Resolve\<close> returns what the constructor returned, its error
  included, in the state the constructor left: nothing is cached and no closure is
  recorded for the failing record. A constructor that makes no call on the container
  leaves every container as it was; what resolutions nested in the constructor cached
  and recorded stays.
\<close>

theorem Resolve_constructor_error:
  assumes "lookup w this tag = Some f" and "cached this (root w this) f w = None"
    and "call_ctor h f this w = Done (v, Some e) w1"
  shows "Resolve h this tag w = Done (v, Some e) w1
       \<and> (\<forall>p. Constructor f = FuncCtor (Some p) \<and> no_calls p \<longrightarrow> conts w1 = conts w)"
proof -
  have "Resolve h this tag w = Done (v, Some e) w1"
    using assms by (simp add: Resolve_def createInstance_miss)
  moreover have "conts w1 = conts w" if "Constructor f = FuncCtor (Some p) \<and> no_calls p" for p
  proof -
    from that assms(3)
    have "exec h p this (w\<lparr>calls := calls w @ [CtorCalled (fid f) this]\<rparr>) = Done (v, Some e) w1"
      by (simp add: call_ctor_def Let_def)
    with that have "conts w1 = conts (w\<lparr>calls := calls w @ [CtorCalled (fid f) this]\<rparr>)"
      by (intro exec_no_calls) simp_all
    then show ?thesis by simp
  qed
  ultimately show ?thesis by blast
qed

text \<open>
  The claim without the amendment fails: the constructor that resolves \<^verbatim>\<open>dep\<close> and
  then returns an error leaves the instance of \<^verbatim>\<open>dep\<close> in the cache and its closure
  in the pending-destructor list.
\<close>

theorem Resolve_constructor_error_counterexample:
  "Resolve (handler (Suc 0)) 0 ''svc'' svc_world =
     Done (NilV, Some (UserError ''no service'')) svc_world_failed
   \<and> cache (conts svc_world ! 0) 0 = None
   \<and> cache (conts svc_world_failed ! 0) 0 = Some (IntV 7)
   \<and> destructors (conts svc_world ! 0) = []
   \<and> destructors (conts svc_world_failed ! 0) =
       [\<lparr>cl_factory = dep_factory, cl_instance = IntV 7\<rparr>]"
  by (simp add: svc_world_def svc_world_failed_def svc_factory_def dep_factory_def
      broken_factory_def resolution_defs upd_cont_def)

text \<open>The constructor that returns an error at once leaves the containers as they were.\<close>

theorem Resolve_constructor_error_witness:
  "Resolve (handler 0) 0 ''broken'' svc_world =
     Done (NilV, Some (UserError ''no service''))
       (svc_world\<lparr>calls := [CtorCalled 2 0]\<rparr>)
   \<and> conts (svc_world\<lparr>calls := [CtorCalled 2 0]\<rparr>) = conts svc_world"
proof -
  have a: "lookup svc_world 0 ''broken'' = Some broken_factory"
    by (simp add: svc_world_def svc_factory_def dep_factory_def broken_factory_def
        resolution_defs)
  have b: "cached 0 (root svc_world 0) broken_factory svc_world = None"
    by (simp add: svc_world_def broken_factory_def cached_def)
  have c: "call_ctor (handler 0) broken_factory 0 svc_world =
      Done (NilV, Some (UserError ''no service'')) (svc_world\<lparr>calls := [CtorCalled 2 0]\<rparr>)"
    by (simp add: svc_world_def broken_factory_def call_ctor_def)
  have d: "Constructor broken_factory =
        FuncCtor (Some (Return NilV (Some (UserError ''no service''))))
      \<and> no_calls (Return NilV (Some (UserError ''no service'')))"
    by (simp add: broken_factory_def)
  from Resolve_constructor_error [OF a b c] d show ?thesis by blast
qed

section \<open>Properties of resolution failure\<close>

lemma inject_fields_append:
  "inject_fields h this target (pre @ fs) i w =
     bind (inject_fields h this target pre i w)
       (\<lambda>err w1. case err of
                    Some e \<Rightarrow> Done (Some e) w1
                  | None \<Rightarrow> inject_fields h this target fs (i + length pre) w1)"
proof (induction pre arbitrary: i w)
  case Nil
  then show ?case by simp
next
  case (Cons f pre)
  show ?case
  proof (cases "ditag f = []")
    case True
    then show ?thesis using Cons [of "Suc i" w] by (simp cong: option.case_cong)
  next
    case False
    show ?thesis
    proof (cases "Resolve h this (ditag f) w")
      case (Done r w1)
      obtain fi err where r: "r = (fi, err)" by (cases r)
      show ?thesis
      proof (cases err)
        case None
        show ?thesis
        proof (cases "Set_field target f i fi w1")
          case (Done u w2)
          then show ?thesis
            using False \<open>Resolve h this (ditag f) w = Done r w1\<close> r None Cons [of "Suc i" w2]
            by (simp cong: option.case_cong)
        qed (simp_all add: False \<open>Resolve h this (ditag f) w = Done r w1\<close> r None)
      next
        case (Some e)
        then show ?thesis using False Done r by simp
      qed
    qed (simp_all add: False)
  qed
qed

lemma inject_fields_skip:
  "\<forall>x\<in>set pre. ditag x = [] \<Longrightarrow>
   inject_fields h this target (pre @ fs) i w = inject_fields h this target fs (i + length pre) w"
  by (induction pre arbitrary: i) simp_all

lemma unmatched_matching:
  assumes "\<forall>c\<in>set (scope_chain w this). \<forall>f\<in>set (factories (conts w ! c)).
             Tag f \<notin> set (resolveAliases w this t)"
  shows "matching w this t = []"
  using assms by (auto simp: matching_def filter_empty_conv)

lemma Resolve_unmatched:
  "lookup w this t = None \<Longrightarrow> Resolve h this t w = Done (NilV, Some ErrNoMatchingTag) w"
  by (simp add: Resolve_def)

lemma inject_fields_unmatched:
  assumes "lookup w this t = None" "ditag fld = t" "t \<noteq> []"
  shows "inject_fields h this target (fld # post) i w = Done (Some ErrNoMatchingTag) w"
  using assms by (simp add: Resolve_unmatched)

text \<open>
  Claim C1, as amended. When no record reachable from a container (on it or on an
  ancestor) has its tag in the alias set of \<open>t\<close>: \<^verbatim>\<open>Resolve(t)\<close> returns no
  instance and the error \<^verbatim>\<open>ErrNoMatchingTag\<close>, leaving the state as it was;
  \<^verbatim>\<open>Inject\<close> on a record or a reference to one returns \<^verbatim>\<open>ErrNoMatchingTag\<close> when the
  first annotated field is annotated \<open>t\<close>, and more generally the injection loop returns
  it whenever the fields before the one annotated \<open>t\<close> were injected without error;
  \<^verbatim>\<open>ResolveAll(t)\<close> returns the empty sequence and no error.
\<close>

theorem NoMatchingTag_when_unmatched:
  assumes "\<forall>c\<in>set (scope_chain w this). \<forall>f\<in>set (factories (conts w ! c)).
             Tag f \<notin> set (resolveAliases w this t)"
  shows "Resolve h this t w = Done (NilV, Some ErrNoMatchingTag) w
       \<and> ResolveAll h this t w = Done ([], None) w
       \<and> (\<forall>v pre fld post.
             is_record_or_ref v \<and> fields_of v = pre @ fld # post
             \<and> (\<forall>x\<in>set pre. ditag x = []) \<and> ditag fld = t \<and> t \<noteq> []
             \<longrightarrow> Inject h this v w = Done (Some ErrNoMatchingTag) w)
       \<and> (\<forall>target pre fld post i w1.
             ditag fld = t \<and> t \<noteq> []
             \<and> inject_fields (handler n) this target pre i w = Done None w1
             \<longrightarrow> inject_fields (handler n) this target (pre @ fld # post) i w =
                   Done (Some ErrNoMatchingTag) w1)"
proof -
  have m: "matching w this t = []" using assms by (rule unmatched_matching)
  then have l: "lookup w this t = None" by (simp add: lookup_matching)
  have 1: "Resolve h this t w = Done (NilV, Some ErrNoMatchingTag) w"
    using l by (rule Resolve_unmatched)
  have 2: "ResolveAll h this t w = Done ([], None) w"
    by (simp add: ResolveAll_each m)
  have 3: "Inject h this v w = Done (Some ErrNoMatchingTag) w"
    if h: "is_record_or_ref v \<and> fields_of v = pre @ fld # post
             \<and> (\<forall>x\<in>set pre. ditag x = []) \<and> ditag fld = t \<and> t \<noteq> []" for v pre fld post
  proof -
    have "inject_fields h this target (pre @ fld # post) 0 w = Done (Some ErrNoMatchingTag) w"
      for target
      using h l by (simp add: inject_fields_skip Resolve_unmatched)
    with h show ?thesis
      by (induction h this v w rule: Inject.induct) simp_all
  qed
  have 4: "inject_fields (handler n) this target (pre @ fld # post) i w =
                   Done (Some ErrNoMatchingTag) w1"
    if h: "ditag fld = t \<and> t \<noteq> []
             \<and> inject_fields (handler n) this target pre i w = Done None w1"
    for target pre fld post i w1
  proof -
    from h have "frame this w w1"
      using frame_inject_fields [OF frame_ok_handler] by blast
    then have "same_registry w w1" by (simp add: frame_def)
    then have "lookup w1 this t = None" using l by (simp add: same_registry_lookup)
    then have "inject_fields (handler n) this target (fld # post) (i + length pre) w1 =
        Done (Some ErrNoMatchingTag) w1"
      using h by (intro inject_fields_unmatched) blast+
    then show ?thesis using h by (simp add: inject_fields_append)
  qed
  from 1 2 3 4 show ?thesis by blast
qed

text \<open>
  With \<^verbatim>\<open>logger\<close> aliased to a type that is not registered: \<^verbatim>\<open>Resolve\<close> and
  \<^verbatim>\<open>Inject\<close> return the error, \<^verbatim>\<open>ResolveAll\<close> the empty sequence.
\<close>

theorem NoMatchingTag_when_unmatched_witness:
  "Resolve (handler 0) 0 ''logger'' alias_only_world =
     Done (NilV, Some ErrNoMatchingTag) alias_only_world
   \<and> ResolveAll (handler 0) 0 ''logger'' alias_only_world = Done ([], None) alias_only_world
   \<and> Inject (handler 0) 0 (StructV ''di.myModule'' [dep_field] [NilV]) alias_only_world =
       Done (Some ErrNoMatchingTag) alias_only_world"
proof -
  have h: "\<forall>c\<in>set (scope_chain alias_only_world 0).
             \<forall>f\<in>set (factories (conts alias_only_world ! c)).
               Tag f \<notin> set (resolveAliases alias_only_world 0 ''logger'')"
    by (simp add: alias_only_world_def registration_defs resolution_defs)
  have v: "is_record_or_ref (StructV ''di.myModule'' [dep_field] [NilV])
      \<and> fields_of (StructV ''di.myModule'' [dep_field] [NilV]) = [] @ dep_field # []
      \<and> (\<forall>x\<in>set []. ditag x = []) \<and> ditag dep_field = ''logger'' \<and> ''logger'' \<noteq> []"
    by (simp add: dep_field_def)
  from NoMatchingTag_when_unmatched [OF h, of "handler 0" 0] v show ?thesis
    by blast
qed

text \<open>
  The claim without the amendment fails for \<^verbatim>\<open>ResolveAll\<close>: no record matches, and
  it returns no error.
\<close>

theorem ResolveAll_unmatched_counterexample:
  "matching alias_only_world 0 ''logger'' = []
   \<and> ResolveAll (handler 0) 0 ''logger'' alias_only_world = Done ([], None) alias_only_world"
  by (simp add: matching_def ResolveAll_each alias_only_world_def registration_defs
      resolution_defs)

text \<open>
  Claim C9. The constructor that \<^verbatim>\<open>UseType\<close> makes drops what \<^verbatim>\<open>Inject\<close> returns:
  when the record found for a tag was registered with \<^verbatim>\<open>UseType\<close> for a struct type
  (or a pointer to one) and the injection into the fresh instance returns an error,
  \<^verbatim>\<open>Resolve\<close> still returns the instance and no error. In particular, when the first
  annotated field of the struct asks for a tag that no record matches, \<^verbatim>\<open>Resolve\<close>
  returns the instance with no error and the object is still the zero value of its type,
  that field included.
\<close>

theorem UseType_discards_injection_error:
  assumes "lookup w this tag = Some f" and "Constructor f = TypeCtor (Some ty)"
    and "cached this (root w this) f w = None"
    and "it = (if Kind ty = Ptr then Elem ty else ty)" and "Kind it = Struct"
  shows "(\<forall>e w2.
            h this (ReqInject (fst (reflect_New it w)))
              (snd (reflect_New it (w\<lparr>calls := calls w @ [CtorCalled (fid f) this]\<rparr>))) =
              Done (RespInject (Some e)) w2
            \<longrightarrow> (\<exists>w'. Resolve h this tag w =
                   Done (if Kind ty = Ptr then fst (reflect_New it w)
                         else Indirect w2 (fst (reflect_New it w)), None) w'))
       \<and> (\<forall>nm pre fld post.
            it = TStruct nm (pre @ fld # post) \<and> (\<forall>x\<in>set pre. ditag x = [])
            \<and> ditag fld \<noteq> [] \<and> lookup w this (ditag fld) = None
            \<longrightarrow> (\<exists>w'. Resolve (handler (Suc n)) this tag w =
                   Done (if Kind ty = Ptr then fst (reflect_New it w)
                         else zero_val it, None) w'
                 \<and> Indirect w' (fst (reflect_New it w)) = zero_val it))"
proof -
  let ?w0 = "w\<lparr>calls := calls w @ [CtorCalled (fid f) this]\<rparr>"
  let ?p = "fst (reflect_New it w)"
  let ?w1 = "snd (reflect_New it ?w0)"
  let ?fin = "\<lambda>v s. record_dtor this (root w this) f v (store_cache this (root w this) f v s)"
  have p0: "fst (reflect_New t (w\<lparr>calls := evs\<rparr>)) = fst (reflect_New t w)" for t evs
    by (simp add: reflect_New_def)
  have run: "Resolve g this tag w =
       Done (if Kind ty = Ptr then ?p else Indirect w2 ?p, None)
         (?fin (if Kind ty = Ptr then ?p else Indirect w2 ?p) w2)"
    if "g this (ReqInject ?p) ?w1 = Done (RespInject (Some e)) w2" for g e w2
    using assms that
    by (simp add: Resolve_def createInstance_miss call_ctor_def type_ctor_def Let_def p0)
  have 1: "\<exists>w'. Resolve h this tag w =
                   Done (if Kind ty = Ptr then ?p else Indirect w2 ?p, None) w'"
    if "h this (ReqInject ?p) ?w1 = Done (RespInject (Some e)) w2" for e w2
    using run [of h e w2] that by blast
  have 2: "\<exists>w'. Resolve (handler (Suc n)) this tag w =
                   Done (if Kind ty = Ptr then ?p else zero_val it, None) w'
                 \<and> Indirect w' ?p = zero_val it"
    if h: "it = TStruct nm (pre @ fld # post) \<and> (\<forall>x\<in>set pre. ditag x = [])
            \<and> ditag fld \<noteq> [] \<and> lookup w this (ditag fld) = None" for nm pre fld post
  proof -
    have "\<exists>a. ?p = PtrV it (Some a)" by (simp add: reflect_New_def)
    then obtain a where a: "?p = PtrV it (Some a)" ..
    have ind: "Indirect ?w1 ?p = zero_val it"
      by (cases "zero_size it") (simp_all add: reflect_New_def)
    have "same_registry w ?w1" by (simp add: same_registry_def reflect_New_def)
    then have "lookup ?w1 this (ditag fld) = None"
      using h by (simp add: same_registry_lookup)
    then have "inject_fields (handler n) this (Some a) (pre @ fld # post) 0 ?w1 =
        Done (Some ErrNoMatchingTag) ?w1"
      using h by (simp add: inject_fields_skip Resolve_unmatched)
    then have "handler (Suc n) this (ReqInject ?p) ?w1 =
        Done (RespInject (Some ErrNoMatchingTag)) ?w1"
      using h a by simp
    from run [of "handler (Suc n)" ErrNoMatchingTag ?w1] this
    have r: "Resolve (handler (Suc n)) this tag w =
       Done (if Kind ty = Ptr then ?p else zero_val it, None)
         (?fin (if Kind ty = Ptr then ?p else zero_val it) ?w1)"
      by (simp add: ind)
    have "heap (?fin v ?w1) = heap ?w1" for v
      by (simp add: heap_record_dtor heap_store_cache)
    then have "Indirect (?fin v ?w1) ?p = Indirect ?w1 ?p" for v
      unfolding a by (cases a) simp_all
    with r ind show ?thesis by auto
  qed
  from 1 2 show ?thesis by blast
qed

text \<open>
  \<^verbatim>\<open>myModule\<close> resolved with nothing registered under \<^verbatim>\<open>logger\<close>: a pointer to a
  module whose \<^verbatim>\<open>Logger\<close> is the zero value, and no error.
\<close>

theorem UseType_discards_injection_error_witness:
  "\<exists>w'. Resolve (handler (Suc 0)) 0 ''module'' module_world =
          Done (PtrV myModule (Some (Obj 0)), None) w'
       \<and> Indirect w' (PtrV myModule (Some (Obj 0))) =
           StructV ''di.myModule'' [dep_field] [ZeroV ''di.Logger'' False]"
proof -
  have a: "lookup module_world 0 ''module'' = Some module_factory"
    by (simp add: module_world_def module_factory_def registration_defs resolution_defs)
  have b: "Constructor module_factory = TypeCtor (Some (TPtr myModule))"
    by (simp add: module_factory_def)
  have c: "cached 0 (root module_world 0) module_factory module_world = None"
    by (simp add: cached_def module_factory_def)
  have d: "myModule = (if Kind (TPtr myModule) = Ptr then Elem (TPtr myModule) else TPtr myModule)"
    by simp
  have e: "Kind myModule = Struct" by (simp add: myModule_def)
  have f: "myModule = TStruct ''di.myModule'' ([] @ dep_field # [])
      \<and> (\<forall>x\<in>set []. ditag x = []) \<and> ditag dep_field \<noteq> []
      \<and> lookup module_world 0 (ditag dep_field) = None"
    by (simp add: myModule_def dep_field_def module_world_def registration_defs resolution_defs)
  have p: "fst (reflect_New myModule module_world) = PtrV myModule (Some (Obj 0))"
    by (simp add: reflect_New_def myModule_def dep_field_def module_world_def registration_defs)
  from UseType_discards_injection_error [OF a b c d e, of "handler (Suc 0)" 0] f
  have "\<exists>w'. Resolve (handler (Suc 0)) 0 ''module'' module_world =
           Done (if Kind (TPtr myModule) = Ptr then fst (reflect_New myModule module_world)
                 else zero_val myModule, None) w'
         \<and> Indirect w' (fst (reflect_New myModule module_world)) = zero_val myModule"
    by blast
  then show ?thesis
    unfolding p by (simp add: myModule_def dep_field_def)
qed

end
